theory Spec2Isabelle
  imports Main "HOL-Library.Multiset"
begin

section \<open>Go strings\<close>

text \<open>
  A Go string is modelled as the sequence of Unicode code points that \<^verbatim>\<open>range s\<close>
  yields on well-formed UTF-8; \<^verbatim>\<open>len(s)\<close> counts the bytes of the encoding.
\<close>

type_synonym rune = nat
type_synonym gostring = "rune list"

definition S :: "string \<Rightarrow> gostring" where
  "S cs = map of_char cs"

definition RuneLen :: "rune \<Rightarrow> nat" where
  "RuneLen r = (if r < 0x80 then 1 else if r < 0x800 then 2 else if r < 0x10000 then 3 else 4)"

definition len :: "gostring \<Rightarrow> int" where
  "len s = int (sum_list (map RuneLen s))"

text \<open>\<^verbatim>\<open>unicode.IsSpace\<close>: the Latin-1 spaces and the code points of category Z
  with property Pattern_White_Space, as listed in the documentation of package unicode.\<close>

definition IsSpace :: "rune \<Rightarrow> bool" where
  "IsSpace r \<longleftrightarrow>
     (9 \<le> r \<and> r \<le> 13) \<or> r = 32 \<or> r = 0x85 \<or> r = 0xA0 \<or> r = 0x1680 \<or>
     (0x2000 \<le> r \<and> r \<le> 0x200A) \<or> r = 0x2028 \<or> r = 0x2029 \<or> r = 0x202F \<or>
     r = 0x205F \<or> r = 0x3000"

text \<open>\<^verbatim>\<open>strings.Fields\<close>: the maximal runs of non-space runes, in order.\<close>

function Fields :: "gostring \<Rightarrow> gostring list" where
  "Fields s =
     (case dropWhile IsSpace s of
        [] \<Rightarrow> []
      | r # rs \<Rightarrow> takeWhile (\<lambda>c. \<not> IsSpace c) (r # rs) # Fields (dropWhile (\<lambda>c. \<not> IsSpace c) rs))"
  by pat_completeness auto
termination
proof (relation "measure length", goal_cases)
  case 1
  show ?case by simp
next
  case (2 s r rs)
  have "length (dropWhile (\<lambda>c. \<not> IsSpace c) rs) \<le> length rs"
    by (rule length_dropWhile_le)
  moreover have "length (dropWhile IsSpace s) \<le> length s"
    by (rule length_dropWhile_le)
  ultimately show ?case using 2 by simp
qed

declare Fields.simps [simp del]

text \<open>\<^verbatim>\<open>strings.Join\<close>.\<close>

fun Join :: "gostring list \<Rightarrow> gostring \<Rightarrow> gostring" where
  "Join [] sep = []"
| "Join [w] sep = w"
| "Join (w # v # ws) sep = w @ sep @ Join (v # ws) sep"

section \<open>The tokenizer\<close>

text \<open>The three loops of \<^verbatim>\<open>tokenize\<close>, each appending to \<^verbatim>\<open>tokens\<close>. Loop bounds are
  computed on \<^typ>\<open>int\<close>, as \<^verbatim>\<open>len(words)-1\<close> is in Go.\<close>

function bigrams_loop :: "gostring list \<Rightarrow> nat \<Rightarrow> gostring list \<Rightarrow> gostring list" where
  "bigrams_loop words i tokens =
     (if int i < int (length words) - 1
      then bigrams_loop words (i + 1) (tokens @ [words ! i @ S '' '' @ words ! (i + 1)])
      else tokens)"
  by pat_completeness auto
termination
  by (relation "measure (\<lambda>(words, i, tokens). length words - i)") auto

declare bigrams_loop.simps [simp del]

function trigrams_loop :: "gostring list \<Rightarrow> nat \<Rightarrow> gostring list \<Rightarrow> gostring list" where
  "trigrams_loop words i tokens =
     (if int i < int (length words) - 2
      then trigrams_loop words (i + 1)
             (tokens @ [words ! i @ S '' '' @ words ! (i + 1) @ S '' '' @ words ! (i + 2)])
      else tokens)"
  by pat_completeness auto
termination
  by (relation "measure (\<lambda>(words, i, tokens). length words - i)") auto

declare trigrams_loop.simps [simp del]

function span_loop :: "gostring list \<Rightarrow> nat \<Rightarrow> nat \<Rightarrow> gostring list \<Rightarrow> gostring list" where
  "span_loop words span i tokens =
     (if int i \<le> int (length words) - int span
      then span_loop words span (i + 1) (tokens @ [Join (take span (drop i words)) (S '' '')])
      else tokens)"
  by pat_completeness auto
termination
  by (relation "measure (\<lambda>(words, span, i, tokens). Suc (length words) - i)") auto

declare span_loop.simps [simp del]

function phrases_loop :: "gostring list \<Rightarrow> nat \<Rightarrow> gostring list \<Rightarrow> gostring list" where
  "phrases_loop words span tokens =
     (if span \<le> 5 \<and> span \<le> length words
      then phrases_loop words (span + 1) (span_loop words span 0 tokens)
      else tokens)"
  by pat_completeness auto
termination
  by (relation "measure (\<lambda>(words, span, tokens). 6 - span)") auto

declare phrases_loop.simps [simp del]

definition tokenize :: "gostring \<Rightarrow> gostring list" where
  "tokenize text =
     (let words = Fields text;
          tokens = [];
          tokens = tokens @ words;
          tokens = bigrams_loop words 0 tokens;
          tokens = trigrams_loop words 0 tokens;
          tokens = phrases_loop words 4 tokens
      in tokens)"

text \<open>The tokenizer as the specification words it: the contiguous spans of \<open>k\<close> words,
  by starting position, each joined with single spaces.\<close>

definition ngrams :: "nat \<Rightarrow> gostring list \<Rightarrow> gostring list" where
  "ngrams k ws = map (\<lambda>i. Join (take k (drop i ws)) (S '' '')) [0..<Suc (length ws) - k]"

section \<open>Library functions used by the matcher\<close>

text \<open>
  The Unicode data the program reaches through \<^verbatim>\<open>golang.org/x/text/unicode/norm\<close> and the
  case tables of package \<^verbatim>\<open>unicode\<close> are not part of the repository; they are parameters:
  \<open>NFKD_String\<close> is \<^verbatim>\<open>norm.NFKD.String\<close>, \<open>ToLower_table\<close> and \<open>ToUpper_table\<close> are
  \<^verbatim>\<open>unicode.ToLower\<close> and \<^verbatim>\<open>unicode.ToUpper\<close> above ASCII (package unicode computes the
  ASCII range itself, as below).
\<close>

record unicode_lib =
  NFKD_String :: "gostring \<Rightarrow> gostring"
  ToLower_table :: "rune \<Rightarrow> rune"
  ToUpper_table :: "rune \<Rightarrow> rune"

definition unicode_ToLower :: "unicode_lib \<Rightarrow> rune \<Rightarrow> rune" where
  "unicode_ToLower U r =
     (if r \<le> 0x7F then (if 0x41 \<le> r \<and> r \<le> 0x5A then r + 32 else r) else ToLower_table U r)"

definition unicode_ToUpper :: "unicode_lib \<Rightarrow> rune \<Rightarrow> rune" where
  "unicode_ToUpper U r =
     (if r \<le> 0x7F then (if 0x61 \<le> r \<and> r \<le> 0x7A then r - 32 else r) else ToUpper_table U r)"

definition ToLower :: "unicode_lib \<Rightarrow> gostring \<Rightarrow> gostring" where
  "ToLower U s = map (unicode_ToLower U) s"

definition ToUpper :: "unicode_lib \<Rightarrow> gostring \<Rightarrow> gostring" where
  "ToUpper U s = map (unicode_ToUpper U) s"

definition TrimSpace :: "gostring \<Rightarrow> gostring" where
  "TrimSpace s = rev (dropWhile IsSpace (rev (dropWhile IsSpace s)))"

definition HasPrefix :: "gostring \<Rightarrow> gostring \<Rightarrow> bool" where
  "HasPrefix s prefix \<longleftrightarrow> take (length prefix) s = prefix"

text \<open>\<^verbatim>\<open>strings.Split\<close> with a separator of one rune.\<close>

fun Split :: "gostring \<Rightarrow> rune \<Rightarrow> gostring list" where
  "Split [] sep = [[]]"
| "Split (r # rs) sep =
     (if r = sep then [] # Split rs sep
      else (case Split rs sep of [] \<Rightarrow> [[r]] | p # ps \<Rightarrow> (r # p) # ps))"

text \<open>\<^verbatim>\<open>regexp.MustCompile(`\s+`).ReplaceAllString(text, repl)\<close>: the class \<^verbatim>\<open>\s\<close> of Go's
  regular expressions is \<^verbatim>\<open>[\t\n\f\r ]\<close>; every maximal run is replaced.\<close>

definition re_space :: "rune \<Rightarrow> bool" where
  "re_space r \<longleftrightarrow> r = 9 \<or> r = 10 \<or> r = 12 \<or> r = 13 \<or> r = 32"

function ReplaceAllString_spaces :: "gostring \<Rightarrow> gostring \<Rightarrow> gostring" where
  "ReplaceAllString_spaces [] repl = []"
| "ReplaceAllString_spaces (r # rs) repl =
     (if re_space r then repl @ ReplaceAllString_spaces (dropWhile re_space rs) repl
      else r # ReplaceAllString_spaces rs repl)"
  by pat_completeness auto
termination
proof (relation "measure (\<lambda>(s, repl). length s)", goal_cases)
  case 1
  show ?case by simp
next
  case (2 r rs repl)
  have "length (dropWhile re_space rs) \<le> length rs" by (rule length_dropWhile_le)
  then show ?case by simp
next
  case (3 r rs repl)
  show ?case by simp
qed

subsection \<open>Regular expressions\<close>

text \<open>
  The program compiles only patterns of the form \<^verbatim>\<open>`\b` + regexp.QuoteMeta(kw) + `\b`\<close>.
  The fragment modelled is what such patterns need: literal runes, escaped metacharacters
  and the ASCII word boundary \<^verbatim>\<open>\b\<close>. \<open>Compile\<close> gives \<open>None\<close> on anything else, where
  \<^verbatim>\<open>regexp.MustCompile\<close> either panics or builds a program outside the fragment.
\<close>

datatype re_inst = WordBoundary | Lit rune

type_synonym Regexp = "re_inst list"

definition special :: "rune \<Rightarrow> bool" where
  "special r \<longleftrightarrow> r \<in> set (92 # S ''.+*?()|[]{}^$'')"

definition QuoteMeta :: "gostring \<Rightarrow> gostring" where
  "QuoteMeta s = concat (map (\<lambda>r. if special r then [92, r] else [r]) s)"

fun Compile :: "gostring \<Rightarrow> Regexp option" where
  "Compile [] = Some []"
| "Compile [r] = (if special r then None else Some [Lit r])"
| "Compile (r # e # rest) =
     (if r = 92 then
        (if e = 98 then map_option ((#) WordBoundary) (Compile rest)
         else if special e then map_option ((#) (Lit e)) (Compile rest)
         else None)
      else if special r then None
      else map_option ((#) (Lit r)) (Compile (e # rest)))"

definition isWordChar :: "rune \<Rightarrow> bool" where
  "isWordChar r \<longleftrightarrow>
     (0x30 \<le> r \<and> r \<le> 0x39) \<or> (0x41 \<le> r \<and> r \<le> 0x5A) \<or> (0x61 \<le> r \<and> r \<le> 0x7A) \<or> r = 0x5F"

definition word_boundary :: "gostring \<Rightarrow> nat \<Rightarrow> bool" where
  "word_boundary s i \<longleftrightarrow>
     (0 < i \<and> i \<le> length s \<and> isWordChar (s ! (i - 1))) \<noteq> (i < length s \<and> isWordChar (s ! i))"

fun match_here :: "Regexp \<Rightarrow> gostring \<Rightarrow> nat \<Rightarrow> bool" where
  "match_here [] s i = True"
| "match_here (WordBoundary # re) s i = (word_boundary s i \<and> match_here re s i)"
| "match_here (Lit c # re) s i = (i < length s \<and> s ! i = c \<and> match_here re s (Suc i))"

definition MatchString :: "Regexp \<Rightarrow> gostring \<Rightarrow> bool" where
  "MatchString re s = list_ex (match_here re s) [0..<Suc (length s)]"

subsection \<open>Scanning the priority\<close>

text \<open>
  \<^verbatim>\<open>fmt.Sscanf(s, "p%d", &priority)\<close>: the literal \<^verbatim>\<open>p\<close>, then for the verb: spaces are
  skipped (a newline is an error), an optional sign, one or more runes of \<^verbatim>\<open>0123456789_\<close>,
  and \<^verbatim>\<open>strconv.ParseInt(tok, 10, 64)\<close> on the token. Input left over is ignored.
  \<open>None\<close> is a non-nil error.
\<close>

fun SkipSpace :: "gostring \<Rightarrow> gostring option" where
  "SkipSpace [] = Some []"
| "SkipSpace (r # rs) =
     (if r = 10 then None
      else if IsSpace r then SkipSpace rs
      else Some (r # rs))"

definition isDigit :: "rune \<Rightarrow> bool" where
  "isDigit r \<longleftrightarrow> 0x30 \<le> r \<and> r \<le> 0x39"

definition decimal :: "gostring \<Rightarrow> int" where
  "decimal ds = foldl (\<lambda>acc d. 10 * acc + (int d - 0x30)) 0 ds"

definition ParseInt :: "gostring \<Rightarrow> int option" where
  "ParseInt tok =
     (let neg = (tok \<noteq> [] \<and> hd tok = 0x2D);
          ds = (if tok \<noteq> [] \<and> (hd tok = 0x2B \<or> hd tok = 0x2D) then tl tok else tok)
      in if ds = [] \<or> \<not> list_all isDigit ds then None
         else if neg then (if decimal ds \<le> 2 ^ 63 then Some (- decimal ds) else None)
         else (if decimal ds < 2 ^ 63 then Some (decimal ds) else None))"

definition Sscanf_p_d :: "gostring \<Rightarrow> int option" where
  "Sscanf_p_d input =
     (case input of
        [] \<Rightarrow> None
      | c # rest \<Rightarrow>
          if c \<noteq> 0x70 then None
          else (case SkipSpace rest of
                  None \<Rightarrow> None
                | Some rest \<Rightarrow>
                    let sgn = (if rest \<noteq> [] \<and> (hd rest = 0x2B \<or> hd rest = 0x2D) then [hd rest] else []);
                        rest = drop (length sgn) rest;
                        tok = takeWhile (\<lambda>r. isDigit r \<or> r = 0x5F) rest
                    in if tok = [] then None else ParseInt (sgn @ tok)))"

section \<open>Data model (types.go)\<close>

record CategoryInfo =
  BaseName :: gostring
  Priority :: int
  Stage :: gostring
  IsHardcoded :: bool
  ReturnValue :: gostring

record keywordEntry =
  raw :: gostring
  regex :: Regexp

record CategoryEntry =
  Info :: CategoryInfo
  Keywords :: "keywordEntry list"

record StageCategories =
  Hardcoded :: "CategoryEntry list"
  Prioritized :: "CategoryEntry list"

record KeywordMatcher =
  stageMap :: "gostring \<rightharpoonup> StageCategories"
  contractions :: "gostring \<rightharpoonup> gostring"
  loadedAt :: nat
  filePath :: gostring

record matchResult =
  keyword :: gostring
  matchType :: gostring
  length' :: int
  category :: gostring
  returnValue :: gostring

text \<open>The values an \<^verbatim>\<open>interface{}\<close> of the configuration can hold; a map value is given
  by its entries in the order the \<^verbatim>\<open>range\<close> loop visits them.\<close>

datatype iface =
    Slice "iface list"
  | StringSlice "gostring list"
  | MapValue "(gostring \<times> iface) list"
  | Str gostring
  | Other

section \<open>Normalisation\<close>

definition contraction_list :: "(gostring \<times> gostring) list" where
  "contraction_list =
    [(S ''i'm'', S ''i am''), (S ''i've'', S ''i have''), (S ''i'll'', S ''i will''),
     (S ''i'd'', S ''i would''),
     (S ''can't'', S ''cannot''), (S ''won't'', S ''will not''), (S ''don't'', S ''do not''),
     (S ''doesn't'', S ''does not''), (S ''didn't'', S ''did not''), (S ''isn't'', S ''is not''),
     (S ''aren't'', S ''are not''), (S ''wasn't'', S ''was not''), (S ''weren't'', S ''were not''),
     (S ''hasn't'', S ''has not''), (S ''haven't'', S ''have not''), (S ''hadn't'', S ''had not''),
     (S ''wouldn't'', S ''would not''), (S ''shouldn't'', S ''should not''),
     (S ''couldn't'', S ''could not''),
     (S ''you're'', S ''you are''), (S ''you've'', S ''you have''), (S ''you'll'', S ''you will''),
     (S ''you'd'', S ''you would''),
     (S ''he's'', S ''he is''), (S ''she's'', S ''she is''), (S ''it's'', S ''it is''),
     (S ''that's'', S ''that is''),
     (S ''what's'', S ''what is''), (S ''where's'', S ''where is''), (S ''who's'', S ''who is''),
     (S ''there's'', S ''there is''), (S ''we're'', S ''we are''), (S ''we've'', S ''we have''),
     (S ''they're'', S ''they are''), (S ''they've'', S ''they have'')]"

definition normalizeText :: "unicode_lib \<Rightarrow> KeywordMatcher \<Rightarrow> gostring \<Rightarrow> gostring" where
  "normalizeText U km text =
     (let text = NFKD_String U text;
          text = map (\<lambda>r. if IsSpace r then 0x20 else r) text;
          text = ToLower U (TrimSpace text);
          words = Fields text;
          words = map (\<lambda>word. case contractions km word of
                                  Some expansion \<Rightarrow> expansion
                                | None \<Rightarrow> word) words;
          text = Join words (S '' '');
          text = ReplaceAllString_spaces text (S '' '')
      in text)"

section \<open>Matching (findBestMatch)\<close>

fun exact_keywords :: "gostring \<Rightarrow> CategoryEntry \<Rightarrow> keywordEntry list \<Rightarrow> matchResult option" where
  "exact_keywords normalized catEntry [] = None"
| "exact_keywords normalized catEntry (entry # rest) =
     (if raw entry = normalized
      then Some \<lparr>keyword = normalized, matchType = S ''exact'', length' = len normalized,
                 category = BaseName (Info catEntry),
                 returnValue = ReturnValue (Info catEntry)\<rparr>
      else exact_keywords normalized catEntry rest)"

fun exact_categories :: "gostring \<Rightarrow> CategoryEntry list \<Rightarrow> matchResult option" where
  "exact_categories normalized [] = None"
| "exact_categories normalized (catEntry # rest) =
     (case exact_keywords normalized catEntry (Keywords catEntry) of
        Some result \<Rightarrow> Some result
      | None \<Rightarrow> exact_categories normalized rest)"

text \<open>The test \<^verbatim>\<open>bestMatch == nil || n > bestMatch.length\<close>.\<close>

definition is_better :: "int \<Rightarrow> matchResult option \<Rightarrow> bool" where
  "is_better n bestMatch = (case bestMatch of None \<Rightarrow> True | Some b \<Rightarrow> n > length' b)"

fun phrase_tokens ::
  "CategoryEntry \<Rightarrow> keywordEntry \<Rightarrow> gostring list \<Rightarrow> matchResult option \<Rightarrow> matchResult option" where
  "phrase_tokens catEntry entry [] bestMatch = bestMatch"
| "phrase_tokens catEntry entry (token # tokens) bestMatch =
     phrase_tokens catEntry entry tokens
       (if raw entry = token \<and> is_better (len token) bestMatch
        then Some \<lparr>keyword = token, matchType = S ''phrase'', length' = len token,
                   category = BaseName (Info catEntry),
                   returnValue = ReturnValue (Info catEntry)\<rparr>
        else bestMatch)"

fun phrase_keywords ::
  "CategoryEntry \<Rightarrow> gostring list \<Rightarrow> keywordEntry list \<Rightarrow> matchResult option \<Rightarrow> matchResult option" where
  "phrase_keywords catEntry tokens [] bestMatch = bestMatch"
| "phrase_keywords catEntry tokens (entry # rest) bestMatch =
     phrase_keywords catEntry tokens rest (phrase_tokens catEntry entry tokens bestMatch)"

fun substring_keywords ::
  "gostring \<Rightarrow> CategoryEntry \<Rightarrow> keywordEntry list \<Rightarrow> matchResult option \<Rightarrow> matchResult option" where
  "substring_keywords normalized catEntry [] bestMatch = bestMatch"
| "substring_keywords normalized catEntry (entry # rest) bestMatch =
     substring_keywords normalized catEntry rest
       (if MatchString (regex entry) normalized \<and> is_better (len (raw entry)) bestMatch
        then Some \<lparr>keyword = raw entry, matchType = S ''substring'', length' = len (raw entry),
                   category = BaseName (Info catEntry),
                   returnValue = ReturnValue (Info catEntry)\<rparr>
        else bestMatch)"

fun partial_categories ::
  "gostring \<Rightarrow> CategoryEntry list \<Rightarrow> matchResult option \<Rightarrow> matchResult option" where
  "partial_categories normalized [] bestMatch = bestMatch"
| "partial_categories normalized (catEntry # rest) bestMatch =
     (let tokens = tokenize normalized;
          bestMatch = phrase_keywords catEntry tokens (Keywords catEntry) bestMatch;
          bestMatch = substring_keywords normalized catEntry (Keywords catEntry) bestMatch
      in partial_categories normalized rest bestMatch)"

definition findBestMatch ::
  "unicode_lib \<Rightarrow> KeywordMatcher \<Rightarrow> gostring \<Rightarrow> CategoryEntry list \<Rightarrow> matchResult option" where
  "findBestMatch U km text categories =
     (let normalized = normalizeText U km text
      in case exact_categories normalized categories of
           Some result \<Rightarrow> Some result
         | None \<Rightarrow> partial_categories normalized categories None)"

text \<open>The candidates of the phrase and substring tiers as the specification words them,
  in evaluation order: for each bucket, its keywords that equal a token (once per equal
  token), then its keywords whose pattern matches the normalized text.\<close>

definition phrase_candidates :: "CategoryEntry \<Rightarrow> gostring list \<Rightarrow> matchResult list" where
  "phrase_candidates catEntry tokens =
     concat (map (\<lambda>entry.
       map (\<lambda>token. \<lparr>keyword = token, matchType = S ''phrase'', length' = len token,
                      category = BaseName (Info catEntry),
                      returnValue = ReturnValue (Info catEntry)\<rparr>)
           (filter (\<lambda>token. raw entry = token) tokens)) (Keywords catEntry))"

definition substring_candidates :: "gostring \<Rightarrow> CategoryEntry \<Rightarrow> matchResult list" where
  "substring_candidates normalized catEntry =
     map (\<lambda>entry. \<lparr>keyword = raw entry, matchType = S ''substring'', length' = len (raw entry),
                    category = BaseName (Info catEntry),
                    returnValue = ReturnValue (Info catEntry)\<rparr>)
         (filter (\<lambda>entry. MatchString (regex entry) normalized) (Keywords catEntry))"

definition candidates :: "gostring \<Rightarrow> CategoryEntry list \<Rightarrow> matchResult list" where
  "candidates normalized categories =
     concat (map (\<lambda>catEntry. phrase_candidates catEntry (tokenize normalized) @
                              substring_candidates normalized catEntry) categories)"

text \<open>\<open>first_longest cs b\<close>: \<open>b\<close> is the first candidate of greatest length in \<open>cs\<close>,
  and nothing when there is no candidate.\<close>

definition first_longest :: "matchResult list \<Rightarrow> matchResult option \<Rightarrow> bool" where
  "first_longest cs b \<longleftrightarrow>
     (case b of
        None \<Rightarrow> cs = []
      | Some r \<Rightarrow> \<exists>i<length cs. cs ! i = r \<and> (\<forall>j<length cs. length' (cs ! j) \<le> length' r) \<and>
                     (\<forall>j<i. length' (cs ! j) < length' r))"

section \<open>Stage processing (ProcessStage)\<close>

text \<open>The loop over \<^verbatim>\<open>stageData.Prioritized\<close>, the same text in both versions of
  \<^verbatim>\<open>ProcessStage\<close>; \<open>Some label\<close> is an early return. The test \<^verbatim>\<open>i == len - 1\<close> is
  \<open>rest = []\<close>.\<close>

fun prioritized_loop ::
  "unicode_lib \<Rightarrow> KeywordMatcher \<Rightarrow> gostring \<Rightarrow> int \<Rightarrow> CategoryEntry list \<Rightarrow> CategoryEntry list
     \<Rightarrow> gostring option" where
  "prioritized_loop U km text currentPriority currentPriorityCategories [] = None"
| "prioritized_loop U km text currentPriority currentPriorityCategories (catEntry # rest) =
     (case (if Priority (Info catEntry) \<noteq> currentPriority \<and> currentPriorityCategories \<noteq> []
            then findBestMatch U km text currentPriorityCategories else None) of
        Some result \<Rightarrow> Some (returnValue result)
      | None \<Rightarrow>
          (case (if rest = []
                 then findBestMatch U km text
                        (if Priority (Info catEntry) \<noteq> currentPriority then [catEntry]
                         else currentPriorityCategories @ [catEntry])
                 else None) of
             Some result \<Rightarrow> Some (returnValue result)
           | None \<Rightarrow>
               prioritized_loop U km text
                 (if Priority (Info catEntry) \<noteq> currentPriority then Priority (Info catEntry)
                  else currentPriority)
                 (if Priority (Info catEntry) \<noteq> currentPriority then [catEntry]
                  else currentPriorityCategories @ [catEntry])
                 rest))"

text \<open>\<^verbatim>\<open>ProcessStage\<close> of src/stage_processing.go.\<close>

definition ProcessStage :: "unicode_lib \<Rightarrow> KeywordMatcher \<Rightarrow> gostring \<Rightarrow> gostring \<Rightarrow> gostring" where
  "ProcessStage U km text stage =
     (case stageMap km stage of
        None \<Rightarrow> S ''unknown''
      | Some stageData \<Rightarrow>
          (case (if Hardcoded stageData \<noteq> []
                 then findBestMatch U km text (Hardcoded stageData) else None) of
             Some result \<Rightarrow> returnValue result
           | None \<Rightarrow>
               (case prioritized_loop U km text (- 1) [] (Prioritized stageData) of
                  Some label \<Rightarrow> label
                | None \<Rightarrow> S ''unknown'')))"

text \<open>\<^verbatim>\<open>ProcessStage\<close> of src/unnamed/part_001, with the special case for the stages
  \<^verbatim>\<open>s3\<close> and \<^verbatim>\<open>s4\<close>.\<close>

definition ProcessStage_special ::
  "unicode_lib \<Rightarrow> KeywordMatcher \<Rightarrow> gostring \<Rightarrow> gostring \<Rightarrow> gostring" where
  "ProcessStage_special U km text stage =
     (case stageMap km stage of
        None \<Rightarrow> S ''UNKNOWN_'' @ stage
      | Some stageData \<Rightarrow>
          (let normalized = normalizeText U km text
           in case (if Hardcoded stageData \<noteq> []
                    then findBestMatch U km text (Hardcoded stageData) else None) of
                Some result \<Rightarrow> returnValue result
              | None \<Rightarrow>
                  (case prioritized_loop U km text (- 1) [] (Prioritized stageData) of
                     Some label \<Rightarrow> label
                   | None \<Rightarrow>
                       (case (if (stage = S ''s3'' \<or> stage = S ''s4'') \<and>
                                 (normalized = S ''no'' \<or> HasPrefix normalized (S ''no ''))
                              then find (\<lambda>catEntry. BaseName (Info catEntry) = S ''dnq'')
                                     (Prioritized stageData)
                              else None) of
                          Some catEntry \<Rightarrow> ReturnValue (Info catEntry)
                        | None \<Rightarrow> S ''UNKNOWN_'' @ stage))))"

text \<open>The priority groups as the specification words them: the maximal runs of
  consecutive entries with equal priority.\<close>

function priority_groups :: "CategoryEntry list \<Rightarrow> CategoryEntry list list" where
  "priority_groups [] = []"
| "priority_groups (c # cs) =
     (c # takeWhile (\<lambda>d. Priority (Info d) = Priority (Info c)) cs) #
     priority_groups (dropWhile (\<lambda>d. Priority (Info d) = Priority (Info c)) cs)"
  by pat_completeness auto
termination
proof (relation "measure length", goal_cases)
  case 1
  show ?case by simp
next
  case (2 c cs)
  have "length (dropWhile (\<lambda>d. Priority (Info d) = Priority (Info c)) cs) \<le> length cs"
    by (rule length_dropWhile_le)
  then show ?case by simp
qed

text \<open>For a list sorted by priority these are the groups of equal priority value, by
  ascending value.\<close>

definition groups_by_priority :: "CategoryEntry list \<Rightarrow> CategoryEntry list list" where
  "groups_by_priority cs =
     map (\<lambda>p. filter (\<lambda>c. Priority (Info c) = p) cs)
       (sorted_list_of_set ((\<lambda>c. Priority (Info c)) ` set cs))"

fun first_group_match ::
  "unicode_lib \<Rightarrow> KeywordMatcher \<Rightarrow> gostring \<Rightarrow> CategoryEntry list list \<Rightarrow> matchResult option" where
  "first_group_match U km text [] = None"
| "first_group_match U km text (g # gs) =
     (case findBestMatch U km text g of
        Some result \<Rightarrow> Some result
      | None \<Rightarrow> first_group_match U km text gs)"

section \<open>Building the matcher\<close>

definition generateReturnValue :: "unicode_lib \<Rightarrow> gostring \<Rightarrow> gostring \<Rightarrow> gostring" where
  "generateReturnValue U baseName stage =
     (if baseName = S ''donotcall'' \<or> baseName = S ''do_not_call'' then S ''DO_NOT_CALL''
      else if baseName = S ''honeypot'' then S ''HONEYPOT''
      else if baseName = S ''answermachine'' \<or> baseName = S ''answer_machine''
        then S ''ANSWER_MACHINE''
      else if baseName = S ''interested'' then S ''INTERESTED''
      else if baseName = S ''notinterested'' \<or> baseName = S ''not_interested''
        then S ''NOT_INTERESTED''
      else if baseName = S ''dnq'' then S ''DNQ''
      else if baseName = S ''busy'' then S ''BUSY''
      else if baseName = S ''already'' then S ''ALREADY''
      else if baseName = S ''rebuttal'' then S ''REBUTTAL''
      else if baseName = S ''neutral'' then S ''NEUTRAL''
      else if baseName = S ''repeatpitch'' \<or> baseName = S ''repeat_pitch'' then S ''REPEAT_PITCH''
      else if baseName = S ''greetingresponse'' \<or> baseName = S ''greeting_response''
        then S ''GREETING_RESPONSE''
      else if baseName = S ''notfeelinggood'' \<or> baseName = S ''not_feeling_good''
        then S ''NOT_FEELING_GOOD''
      else if baseName = S ''donttransfer'' \<or> baseName = S ''dont_transfer''
        then S ''DONT_TRANSFER''
      else ToUpper U baseName)"

definition parseCategoryName :: "unicode_lib \<Rightarrow> gostring \<Rightarrow> CategoryInfo option" where
  "parseCategoryName U name =
     (let parts = Split name 0x5F
      in if length parts < 3 then None
         else
           let stage = parts ! (length parts - 1)
           in if \<not> HasPrefix stage (S ''s'') then None
              else
                let priorityPart = parts ! (length parts - 2);
                    baseName = Join (take (length parts - 2) parts) (S ''_'')
                in if priorityPart = S ''hardcoded''
                   then Some \<lparr>BaseName = baseName, Priority = 0, Stage = stage,
                              IsHardcoded = True,
                              ReturnValue = generateReturnValue U baseName stage\<rparr>
                   else if HasPrefix priorityPart (S ''p'')
                   then (case Sscanf_p_d priorityPart of
                           None \<Rightarrow> None
                         | Some priority \<Rightarrow>
                             Some \<lparr>BaseName = baseName, Priority = priority, Stage = stage,
                                   IsHardcoded = False,
                                   ReturnValue = generateReturnValue U baseName stage\<rparr>)
                   else None)"


fun strings_of :: "iface list \<Rightarrow> gostring list" where
  "strings_of [] = []"
| "strings_of (Str str # items) = str # strings_of items"
| "strings_of (item # items) = strings_of items"

definition convertToStringSlice :: "iface \<Rightarrow> gostring list" where
  "convertToStringSlice v =
     (case v of
        Slice items \<Rightarrow> strings_of items
      | StringSlice ss \<Rightarrow> ss
      | MapValue kvs \<Rightarrow> strings_of (map snd kvs)
      | Str str \<Rightarrow> [str]
      | Other \<Rightarrow> [])"

text \<open>\<open>None\<close> is the panic of \<^verbatim>\<open>regexp.MustCompile\<close>.\<close>

fun prepareKeywordEntries ::
  "unicode_lib \<Rightarrow> KeywordMatcher \<Rightarrow> gostring list \<Rightarrow> keywordEntry list option" where
  "prepareKeywordEntries U km [] = Some []"
| "prepareKeywordEntries U km (kw # keywords) =
     (let normalized = normalizeText U km kw
      in if normalized \<noteq> []
         then (case Compile ([92, 98] @ QuoteMeta normalized @ [92, 98]) of
                 None \<Rightarrow> None
               | Some re \<Rightarrow>
                   map_option ((#) \<lparr>raw = normalized, regex = re\<rparr>)
                     (prepareKeywordEntries U km keywords))
         else prepareKeywordEntries U km keywords)"

text \<open>The body of the loop of \<open>NewKeywordMatcher\<close> after the entries are prepared:
  the stage is created when it is missing, and the category is appended to one of its two
  lists.\<close>

definition add_category :: "KeywordMatcher \<Rightarrow> CategoryInfo \<Rightarrow> keywordEntry list \<Rightarrow> KeywordMatcher" where
  "add_category km info entries =
     (let stageData = (case stageMap km (Stage info) of
                         None \<Rightarrow> \<lparr>Hardcoded = [], Prioritized = []\<rparr>
                       | Some sd \<Rightarrow> sd);
          categoryEntry = \<lparr>Info = info, Keywords = entries\<rparr>;
          stageData =
            (if IsHardcoded info
             then stageData\<lparr>Hardcoded := Hardcoded stageData @ [categoryEntry]\<rparr>
             else stageData\<lparr>Prioritized := Prioritized stageData @ [categoryEntry]\<rparr>)
      in km\<lparr>stageMap := (stageMap km)(Stage info \<mapsto> stageData)\<rparr>)"

text \<open>The loop over \<^verbatim>\<open>rawKeywords\<close>, a Go map: the list holds its entries in the order
  the \<^verbatim>\<open>range\<close> loop visits them, which the runtime chooses.\<close>

fun load_categories ::
  "unicode_lib \<Rightarrow> KeywordMatcher \<Rightarrow> (gostring \<times> iface) list \<Rightarrow> KeywordMatcher option" where
  "load_categories U km [] = Some km"
| "load_categories U km ((categoryKey, v) # rest) =
     (case parseCategoryName U categoryKey of
        None \<Rightarrow> load_categories U km rest
      | Some info \<Rightarrow>
          let keywords = convertToStringSlice v
          in if length keywords = 0 then load_categories U km rest
             else (case prepareKeywordEntries U km keywords of
                     None \<Rightarrow> None
                   | Some entries \<Rightarrow> load_categories U (add_category km info entries) rest))"

text \<open>\<^verbatim>\<open>sort.Slice\<close> is a parameter \<open>sort_Slice lt xs\<close>, with \<open>lt\<close> the comparison on elements. Its documentation promises a
  sorted permutation and no stability.\<close>

type_synonym sorter = "(CategoryEntry \<Rightarrow> CategoryEntry \<Rightarrow> bool) \<Rightarrow> CategoryEntry list \<Rightarrow> CategoryEntry list"

definition sort_stages :: "sorter \<Rightarrow> KeywordMatcher \<Rightarrow> KeywordMatcher" where
  "sort_stages sort_Slice km =
     km\<lparr>stageMap := (\<lambda>stage.
        map_option (\<lambda>stageData.
          stageData\<lparr>Prioritized :=
            sort_Slice (\<lambda>a b. Priority (Info a) < Priority (Info b)) (Prioritized stageData)\<rparr>)
          (stageMap km stage))\<rparr>"

definition NewKeywordMatcher ::
  "unicode_lib \<Rightarrow> sorter \<Rightarrow> nat \<Rightarrow> (gostring \<times> iface) list \<Rightarrow> gostring \<Rightarrow> KeywordMatcher option" where
  "NewKeywordMatcher U sort_Slice now rawKeywords path =
     (let km = \<lparr>stageMap = Map.empty, contractions = map_of contraction_list,
                loadedAt = now, filePath = path\<rparr>
      in map_option (sort_stages sort_Slice) (load_categories U km rawKeywords))"

text \<open>The categories \<open>NewKeywordMatcher\<close> loads, in the order of the loop: one for
  each key that parses and whose value holds at least one string, with the normalized
  non-empty keywords and their patterns. \<open>empty_matcher\<close> is the matcher before any
  category is loaded.\<close>

definition empty_matcher :: KeywordMatcher where
  "empty_matcher = \<lparr>stageMap = Map.empty, contractions = map_of contraction_list,
                    loadedAt = 0, filePath = []\<rparr>"

definition keyword_entries :: "unicode_lib \<Rightarrow> gostring list \<Rightarrow> keywordEntry list" where
  "keyword_entries U keywords =
     map (\<lambda>n. \<lparr>raw = n, regex = WordBoundary # map Lit n @ [WordBoundary]\<rparr>)
       (filter (\<lambda>n. n \<noteq> []) (map (normalizeText U empty_matcher) keywords))"

definition loaded_categories :: "unicode_lib \<Rightarrow> (gostring \<times> iface) list \<Rightarrow> CategoryEntry list" where
  "loaded_categories U rawKeywords =
     concat (map (\<lambda>(categoryKey, v).
       case parseCategoryName U categoryKey of
         None \<Rightarrow> []
       | Some info \<Rightarrow>
           if convertToStringSlice v = [] then []
           else [\<lparr>Info = info, Keywords = keyword_entries U (convertToStringSlice v)\<rparr>])
       rawKeywords)"

text \<open>The matcher without the categories that have no keyword, for comparison.\<close>

definition without_empty :: "KeywordMatcher \<Rightarrow> KeywordMatcher" where
  "without_empty km =
     km\<lparr>stageMap := (\<lambda>stage.
        map_option (\<lambda>stageData.
          \<lparr>Hardcoded = filter (\<lambda>c. Keywords c \<noteq> []) (Hardcoded stageData),
           Prioritized = filter (\<lambda>c. Keywords c \<noteq> []) (Prioritized stageData)\<rparr>)
          (stageMap km stage))\<rparr>"

text \<open>What the libraries promise, as far as the properties below need it. For the
  normal form: normalising is idempotent; the empty string is normal; an ASCII rune
  between two normal strings gives a normal string; the two parts of a normal string are
  normal; lowercasing keeps a normal string normal. Lowercasing a rune twice is
  lowercasing it once.\<close>

definition unicode_contract :: "unicode_lib \<Rightarrow> bool" where
  "unicode_contract U \<longleftrightarrow>
     (\<forall>s. NFKD_String U (NFKD_String U s) = NFKD_String U s) \<and>
     NFKD_String U [] = [] \<and>
     (\<forall>s t c. c < 0x80 \<longrightarrow> NFKD_String U s = s \<longrightarrow> NFKD_String U t = t \<longrightarrow>
        NFKD_String U (s @ c # t) = s @ c # t) \<and>
     (\<forall>s t. NFKD_String U (s @ t) = s @ t \<longrightarrow> NFKD_String U s = s \<and> NFKD_String U t = t) \<and>
     (\<forall>s. NFKD_String U s = s \<longrightarrow> NFKD_String U (ToLower U s) = ToLower U s) \<and>
     (\<forall>r. unicode_ToLower U (unicode_ToLower U r) = unicode_ToLower U r)"

definition sort_contract :: "sorter \<Rightarrow> bool" where
  "sort_contract sort_Slice \<longleftrightarrow>
     (\<forall>xs. mset (sort_Slice (\<lambda>a b. Priority (Info a) < Priority (Info b)) xs) = mset xs \<and>
           sorted (map (\<lambda>c. Priority (Info c))
             (sort_Slice (\<lambda>a b. Priority (Info a) < Priority (Info b)) xs)))"

text \<open>Instances for evaluation: the Unicode functions restricted to ASCII text, where
  normalisation changes nothing, and the insertion sort that \<^verbatim>\<open>sort.Slice\<close> runs on short
  slices.\<close>

definition ascii_lib :: unicode_lib where
  "ascii_lib = \<lparr>NFKD_String = (\<lambda>s. s), ToLower_table = (\<lambda>r. r), ToUpper_table = (\<lambda>r. r)\<rparr>"

text \<open>A fragment of the Unicode tables above ASCII: \<open>U+00C9\<close> and \<open>U+00E9\<close> (E and e with
  acute) decompose into the letter and the combining acute accent \<open>U+0301\<close>, the no-break
  space \<open>U+00A0\<close> into a space, every other code point is left alone; \<open>U+00C9\<close> and
  \<open>U+00E9\<close> are each other's case variants.\<close>

definition latin_decomp :: "rune \<Rightarrow> gostring" where
  "latin_decomp r =
     (if r = 0xC9 then [0x45, 0x301] else if r = 0xE9 then [0x65, 0x301]
      else if r = 0xA0 then [0x20] else [r])"

definition latin_lib :: unicode_lib where
  "latin_lib = \<lparr>NFKD_String = (\<lambda>s. concat (map latin_decomp s)),
                 ToLower_table = (\<lambda>r. if r = 0xC9 then 0xE9 else r),
                 ToUpper_table = (\<lambda>r. if r = 0xE9 then 0xC9 else r)\<rparr>"

fun insert_sorted ::
  "(CategoryEntry \<Rightarrow> CategoryEntry \<Rightarrow> bool) \<Rightarrow> CategoryEntry \<Rightarrow> CategoryEntry list \<Rightarrow> CategoryEntry list" where
  "insert_sorted lt x [] = [x]"
| "insert_sorted lt x (y # ys) = (if lt x y then x # y # ys else y # insert_sorted lt x ys)"

definition insertionSort :: sorter where
  "insertionSort lt xs = foldl (\<lambda>acc x. insert_sorted lt x acc) [] xs"

section \<open>Example data\<close>

text \<open>The bucket of the longest-match example of the specification.\<close>

definition example_bucket :: CategoryEntry where
  "example_bucket =
     \<lparr>Info = \<lparr>BaseName = S ''donotcall'', Priority = 1, Stage = S ''s3'', IsHardcoded = False,
              ReturnValue = S ''DO_NOT_CALL''\<rparr>,
      Keywords = [\<lparr>raw = S ''call'', regex = WordBoundary # map Lit (S ''call'') @ [WordBoundary]\<rparr>,
                  \<lparr>raw = S ''do not call'',
                    regex = WordBoundary # map Lit (S ''do not call'') @ [WordBoundary]\<rparr>]\<rparr>"

text \<open>A stage with a hardcoded category and two prioritized ones, and the
  configuration of scenario C of the specification.\<close>

definition honeypot_bucket :: CategoryEntry where
  "honeypot_bucket =
     \<lparr>Info = \<lparr>BaseName = S ''honeypot'', Priority = 0, Stage = S ''s3'', IsHardcoded = True,
              ReturnValue = S ''HONEYPOT''\<rparr>,
      Keywords = [\<lparr>raw = S ''test call'',
                    regex = WordBoundary # map Lit (S ''test call'') @ [WordBoundary]\<rparr>]\<rparr>"

definition interested_bucket :: CategoryEntry where
  "interested_bucket =
     \<lparr>Info = \<lparr>BaseName = S ''interested'', Priority = 2, Stage = S ''s3'', IsHardcoded = False,
              ReturnValue = S ''INTERESTED''\<rparr>,
      Keywords = [\<lparr>raw = S ''interested'',
                    regex = WordBoundary # map Lit (S ''interested'') @ [WordBoundary]\<rparr>]\<rparr>"

definition example_stage :: StageCategories where
  "example_stage = \<lparr>Hardcoded = [honeypot_bucket],
                     Prioritized = [example_bucket, interested_bucket]\<rparr>"

definition example_matcher :: KeywordMatcher where
  "example_matcher = empty_matcher\<lparr>stageMap := [S ''s3'' \<mapsto> example_stage]\<rparr>"

definition dnq_bucket :: CategoryEntry where
  "dnq_bucket =
     \<lparr>Info = \<lparr>BaseName = S ''dnq'', Priority = 5, Stage = S ''s3'', IsHardcoded = False,
              ReturnValue = S ''DNQ''\<rparr>,
      Keywords = [\<lparr>raw = S ''not qualified'',
                    regex = WordBoundary # map Lit (S ''not qualified'') @ [WordBoundary]\<rparr>]\<rparr>"

definition scenario_C :: "KeywordMatcher option" where
  "scenario_C = NewKeywordMatcher ascii_lib insertionSort 0
     [(S ''dnq_p5_s3'', Slice [Str (S ''not qualified'')])] []"

text \<open>Configurations: a category whose value holds no string, one whose only keyword
  is blank, and one Go map of two categories of equal priority in its two iteration
  orders.\<close>

definition config_no_strings :: "(gostring \<times> iface) list" where
  "config_no_strings = [(S ''dnq_p5_s3'', Slice [])]"

definition config_blank :: "(gostring \<times> iface) list" where
  "config_blank = [(S ''dnq_p5_s3'', Slice [Str (S ''  '')])]"

text \<open>The configuration \<open>config_blank\<close> followed by an entry whose value holds no
  string.\<close>

definition config_blank_skip :: "(gostring \<times> iface) list" where
  "config_blank_skip = config_blank @ [(S ''busy_p1_s3'', Slice [])]"

definition config_ab :: "(gostring \<times> iface) list" where
  "config_ab = [(S ''a_p1_s1'', Str (S ''x'')), (S ''b_p1_s1'', Str (S ''y''))]"

definition config_ba :: "(gostring \<times> iface) list" where
  "config_ba = [(S ''b_p1_s1'', Str (S ''y'')), (S ''a_p1_s1'', Str (S ''x''))]"

text \<open>A bucket with keywords outside ASCII, as \<open>NewKeywordMatcher\<close> stores them with
  the Unicode fragment \<open>latin_lib\<close>: \<open>U+00E9\<close> is two code points after normalisation
  and three bytes in UTF-8, the euro sign \<open>U+20AC\<close> one code point and three bytes.\<close>

definition accent_bucket :: CategoryEntry where
  "accent_bucket =
     \<lparr>Info = \<lparr>BaseName = S ''interested'', Priority = 1, Stage = S ''s1'', IsHardcoded = False,
              ReturnValue = S ''INTERESTED''\<rparr>,
      Keywords = keyword_entries latin_lib
        [S ''abcdef'', S ''caf'' @ [0xE9, 0x20AC], S ''abcde'', [0xE9, 0xE9]]\<rparr>"

text \<open>A stage with two categories of base name \<^verbatim>\<open>dnq\<close> and distinct labels, none with a
  keyword. The labels are chosen to tell the two apart; \<open>generateReturnValue\<close> gives every
  category of that base name the label \<^verbatim>\<open>DNQ\<close>.\<close>

definition two_dnq_stage :: StageCategories where
  "two_dnq_stage =
     \<lparr>Hardcoded = [],
      Prioritized =
        [\<lparr>Info = \<lparr>BaseName = S ''busy'', Priority = 1, Stage = S ''s4'', IsHardcoded = False,
                  ReturnValue = S ''BUSY''\<rparr>, Keywords = []\<rparr>,
         \<lparr>Info = \<lparr>BaseName = S ''dnq'', Priority = 2, Stage = S ''s4'', IsHardcoded = False,
                  ReturnValue = S ''FIRST''\<rparr>, Keywords = []\<rparr>,
         \<lparr>Info = \<lparr>BaseName = S ''dnq'', Priority = 3, Stage = S ''s4'', IsHardcoded = False,
                  ReturnValue = S ''SECOND''\<rparr>, Keywords = []\<rparr>]\<rparr>"

definition two_dnq_matcher :: KeywordMatcher where
  "two_dnq_matcher = empty_matcher\<lparr>stageMap := [S ''s4'' \<mapsto> two_dnq_stage]\<rparr>"

section \<open>Properties of the tokenizer\<close>

lemma bigrams_loop_eq:
  "bigrams_loop words i tokens =
     tokens @ map (\<lambda>j. words ! j @ S '' '' @ words ! (j + 1)) [i..<length words - 1]"
proof (induction words i tokens rule: bigrams_loop.induct)
  case (1 words i tokens)
  show ?case
  proof (cases "int i < int (length words) - 1")
    case True
    then have lt: "i < length words - 1" by linarith
    have "bigrams_loop words i tokens =
            bigrams_loop words (i + 1) (tokens @ [words ! i @ S '' '' @ words ! (i + 1)])"
      using True by (subst bigrams_loop.simps) simp
    also have "\<dots> = (tokens @ [words ! i @ S '' '' @ words ! (i + 1)]) @
            map (\<lambda>j. words ! j @ S '' '' @ words ! (j + 1)) [i + 1..<length words - 1]"
      using 1 True by simp
    also have "\<dots> = tokens @ map (\<lambda>j. words ! j @ S '' '' @ words ! (j + 1)) [i..<length words - 1]"
      using lt by (simp add: upt_conv_Cons)
    finally show ?thesis .
  next
    case False
    then have "\<not> i < length words - 1" by linarith
    then show ?thesis using False by (subst bigrams_loop.simps) simp
  qed
qed

lemma trigrams_loop_eq:
  "trigrams_loop words i tokens =
     tokens @ map (\<lambda>j. words ! j @ S '' '' @ words ! (j + 1) @ S '' '' @ words ! (j + 2))
                [i..<length words - 2]"
proof (induction words i tokens rule: trigrams_loop.induct)
  case (1 words i tokens)
  show ?case
  proof (cases "int i < int (length words) - 2")
    case True
    then have lt: "i < length words - 2" by linarith
    have "trigrams_loop words i tokens =
            trigrams_loop words (i + 1)
              (tokens @ [words ! i @ S '' '' @ words ! (i + 1) @ S '' '' @ words ! (i + 2)])"
      using True by (subst trigrams_loop.simps) simp
    also have "\<dots> = (tokens @ [words ! i @ S '' '' @ words ! (i + 1) @ S '' '' @ words ! (i + 2)]) @
            map (\<lambda>j. words ! j @ S '' '' @ words ! (j + 1) @ S '' '' @ words ! (j + 2))
              [i + 1..<length words - 2]"
      using 1 True by simp
    also have "\<dots> = tokens @
            map (\<lambda>j. words ! j @ S '' '' @ words ! (j + 1) @ S '' '' @ words ! (j + 2))
              [i..<length words - 2]"
      using lt by (simp add: upt_conv_Cons)
    finally show ?thesis .
  next
    case False
    then have "\<not> i < length words - 2" by linarith
    then show ?thesis using False by (subst trigrams_loop.simps) simp
  qed
qed

lemma span_loop_eq:
  "span_loop words span i tokens =
     tokens @ map (\<lambda>j. Join (take span (drop j words)) (S '' '')) [i..<Suc (length words) - span]"
proof (induction words span i tokens rule: span_loop.induct)
  case (1 words span i tokens)
  show ?case
  proof (cases "int i \<le> int (length words) - int span")
    case True
    then have lt: "i < Suc (length words) - span" by linarith
    have "span_loop words span i tokens =
            span_loop words span (i + 1) (tokens @ [Join (take span (drop i words)) (S '' '')])"
      using True by (subst span_loop.simps) simp
    also have "\<dots> = (tokens @ [Join (take span (drop i words)) (S '' '')]) @
            map (\<lambda>j. Join (take span (drop j words)) (S '' '')) [i + 1..<Suc (length words) - span]"
      using 1 True by simp
    also have "\<dots> = tokens @
            map (\<lambda>j. Join (take span (drop j words)) (S '' '')) [i..<Suc (length words) - span]"
      using lt by (simp add: upt_conv_Cons)
    finally show ?thesis .
  next
    case False
    then have "\<not> i < Suc (length words) - span" by linarith
    then show ?thesis using False by (subst span_loop.simps) simp
  qed
qed

lemma span_loop_ngrams: "span_loop words span 0 tokens = tokens @ ngrams span words"
  by (simp add: span_loop_eq ngrams_def)

lemma ngrams_too_long: "length ws < k \<Longrightarrow> ngrams k ws = []"
  by (simp add: ngrams_def)

lemma length_ngrams: "length (ngrams k ws) = Suc (length ws) - k"
  by (simp add: ngrams_def)

lemma phrases_loop_4: "phrases_loop words 4 tokens = tokens @ ngrams 4 words @ ngrams 5 words"
proof -
  have six: "phrases_loop words 6 t = t" for t
    by (subst phrases_loop.simps) simp
  have five: "phrases_loop words 5 t = t @ ngrams 5 words" for t
  proof (cases "5 \<le> length words")
    case True
    then have "phrases_loop words 5 t = phrases_loop words 6 (span_loop words 5 0 t)"
      by (subst phrases_loop.simps) simp
    then show ?thesis by (simp add: six span_loop_ngrams)
  next
    case False
    then show ?thesis by (subst phrases_loop.simps) (simp add: ngrams_too_long)
  qed
  show ?thesis
  proof (cases "4 \<le> length words")
    case True
    then have "phrases_loop words 4 tokens = phrases_loop words 5 (span_loop words 4 0 tokens)"
      by (subst phrases_loop.simps) simp
    then show ?thesis by (simp add: five span_loop_ngrams)
  next
    case False
    then show ?thesis by (subst phrases_loop.simps) (simp add: ngrams_too_long)
  qed
qed

lemma drop_nth_Cons: "i < length ws \<Longrightarrow> drop i ws = ws ! i # drop (Suc i) ws"
  by (simp add: Cons_nth_drop_Suc)

lemma Join_take_1: "i < length ws \<Longrightarrow> Join (take (Suc 0) (drop i ws)) sep = ws ! i"
  by (simp add: drop_nth_Cons)

lemma Join_take_2:
  assumes "Suc i < length ws"
  shows "Join (take 2 (drop i ws)) sep = ws ! i @ sep @ ws ! Suc i"
proof -
  have "drop i ws = ws ! i # ws ! Suc i # drop (Suc (Suc i)) ws"
    using assms drop_nth_Cons[of i ws] drop_nth_Cons[of "Suc i" ws] by simp
  then show ?thesis by (simp add: numeral_2_eq_2)
qed

lemma Join_take_3:
  assumes "Suc (Suc i) < length ws"
  shows "Join (take 3 (drop i ws)) sep = ws ! i @ sep @ ws ! Suc i @ sep @ ws ! Suc (Suc i)"
proof -
  have "drop i ws = ws ! i # ws ! Suc i # ws ! Suc (Suc i) # drop (Suc (Suc (Suc i))) ws"
    using assms drop_nth_Cons[of i ws] drop_nth_Cons[of "Suc i" ws]
      drop_nth_Cons[of "Suc (Suc i)" ws] by simp
  then show ?thesis by (simp add: numeral_3_eq_3)
qed

lemma ngrams_1: "ngrams (Suc 0) ws = ws"
proof -
  have "ngrams (Suc 0) ws = map (\<lambda>i. ws ! i) [0..<length ws]"
    unfolding ngrams_def by (rule map_cong) (simp_all add: Join_take_1)
  then show ?thesis by (simp add: map_nth)
qed

lemma ngrams_2:
  "ngrams 2 ws = map (\<lambda>j. ws ! j @ S '' '' @ ws ! (j + 1)) [0..<length ws - 1]"
proof -
  have "Suc (length ws) - 2 = length ws - 1" by simp
  then show ?thesis
    unfolding ngrams_def by (intro map_cong) (auto simp: Join_take_2)
qed

lemma ngrams_3:
  "ngrams 3 ws =
     map (\<lambda>j. ws ! j @ S '' '' @ ws ! (j + 1) @ S '' '' @ ws ! (j + 2)) [0..<length ws - 2]"
proof -
  have "Suc (length ws) - 3 = length ws - 2" by simp
  then show ?thesis
    unfolding ngrams_def by (intro map_cong) (auto simp: Join_take_3)
qed

lemma tokenize_eq:
  "tokenize text =
     Fields text @ ngrams 2 (Fields text) @ ngrams 3 (Fields text) @
     ngrams 4 (Fields text) @ ngrams 5 (Fields text)"
  unfolding tokenize_def Let_def bigrams_loop_eq trigrams_loop_eq phrases_loop_4
    ngrams_2 ngrams_3 by simp

text \<open>
  C8. For a text of \<open>n\<close> words, \<open>tokenize\<close> returns the \<open>n\<close> unigrams, then the
  contiguous bigrams, trigrams, 4-word and 5-word spans, in this order and by starting
  position, without deduplication: there are \<open>n + 1 - k\<close> spans of \<open>k\<close> words (none when
  \<open>n < k\<close>), the \<open>i\<close>-th being words \<open>i .. i + k - 1\<close> joined by single spaces; for
  \<open>n \<ge> 5\<close> the token count is \<open>n + (n-1) + (n-2) + (n-3) + (n-4)\<close>.
\<close>

theorem tokenize_ngrams:
  "tokenize text =
     Fields text @ ngrams 2 (Fields text) @ ngrams 3 (Fields text) @
     ngrams 4 (Fields text) @ ngrams 5 (Fields text)
    \<and> (\<forall>k i. i + k \<le> length (Fields text) \<longrightarrow> 1 \<le> k \<longrightarrow>
          length (ngrams k (Fields text)) = length (Fields text) + 1 - k \<and>
          ngrams k (Fields text) ! i = Join (take k (drop i (Fields text))) (S '' ''))
    \<and> (\<forall>k. length (Fields text) < k \<longrightarrow> ngrams k (Fields text) = [])
    \<and> (5 \<le> length (Fields text) \<longrightarrow> int (length (tokenize text)) =
          int (length (Fields text)) + (int (length (Fields text)) - 1) +
          (int (length (Fields text)) - 2) + (int (length (Fields text)) - 3) +
          (int (length (Fields text)) - 4))"
proof (intro conjI allI impI)
  show "tokenize text =
     Fields text @ ngrams 2 (Fields text) @ ngrams 3 (Fields text) @
     ngrams 4 (Fields text) @ ngrams 5 (Fields text)"
    by (rule tokenize_eq)
next
  fix k i :: nat assume "i + k \<le> length (Fields text)" "1 \<le> k"
  then show "length (ngrams k (Fields text)) = length (Fields text) + 1 - k"
    by (simp add: length_ngrams)
next
  fix k i :: nat assume "i + k \<le> length (Fields text)" "1 \<le> k"
  then have "i < Suc (length (Fields text)) - k" by simp
  then show "ngrams k (Fields text) ! i = Join (take k (drop i (Fields text))) (S '' '')"
    by (simp add: ngrams_def del: upt_Suc)
next
  fix k assume "length (Fields text) < k"
  then show "ngrams k (Fields text) = []" by (simp add: ngrams_too_long)
next
  assume "5 \<le> length (Fields text)"
  then show "int (length (tokenize text)) =
          int (length (Fields text)) + (int (length (Fields text)) - 1) +
          (int (length (Fields text)) - 2) + (int (length (Fields text)) - 3) +
          (int (length (Fields text)) - 4)"
    by (simp add: tokenize_eq length_ngrams)
qed

theorem tokenize_ngrams_witness:
  "5 \<le> length (Fields (S ''please do not call me''))
   \<and> int (length (tokenize (S ''please do not call me''))) = 5 + 4 + 3 + 2 + 1
   \<and> 3 + 2 \<le> length (Fields (S ''please do not call me''))
   \<and> ngrams 2 (Fields (S ''please do not call me'')) ! 3 = S ''call me''
   \<and> length (Fields (S ''please do not call me'')) < 6
   \<and> ngrams 6 (Fields (S ''please do not call me'')) = []"
proof -
  have f: "Fields (S ''please do not call me'') =
      [S ''please'', S ''do'', S ''not'', S ''call'', S ''me'']"
    by (simp add: S_def Fields.simps IsSpace_def)
  then have n: "length (Fields (S ''please do not call me'')) = 5" by simp
  note T = tokenize_ngrams[of "S ''please do not call me''"]
  have "int (length (tokenize (S ''please do not call me''))) = 5 + 4 + 3 + 2 + 1"
    using T[THEN conjunct2, THEN conjunct2, THEN conjunct2] n by simp
  moreover have "ngrams 2 (Fields (S ''please do not call me'')) ! 3 =
      Join (take 2 (drop 3 (Fields (S ''please do not call me'')))) (S '' '')"
    using T[THEN conjunct2, THEN conjunct1, rule_format, of 3 2] n by simp
  then have "ngrams 2 (Fields (S ''please do not call me'')) ! 3 = S ''call me''"
    unfolding f by (simp add: S_def)
  moreover have "ngrams 6 (Fields (S ''please do not call me'')) = []"
    using T[THEN conjunct2, THEN conjunct2, THEN conjunct1, rule_format, of 6] n by simp
  ultimately show ?thesis using n by simp
qed

section \<open>The best match\<close>

lemma first_longest_step:
  assumes "first_longest cs b"
  shows "first_longest (cs @ [c]) (if is_better (length' c) b then Some c else b)"
proof (cases b)
  case None
  with assms have "cs = []" by (simp add: first_longest_def)
  with None show ?thesis by (simp add: first_longest_def is_better_def)
next
  case (Some r)
  with assms obtain i where i: "i < length cs" "cs ! i = r"
    "\<forall>j<length cs. length' (cs ! j) \<le> length' r" "\<forall>j<i. length' (cs ! j) < length' r"
    by (auto simp: first_longest_def)
  show ?thesis
  proof (cases "length' c > length' r")
    case True
    have "\<forall>j<length cs. length' ((cs @ [c]) ! j) < length' c"
      using i(3) True by (fastforce simp: nth_append)
    moreover have "\<forall>j<length (cs @ [c]). length' ((cs @ [c]) ! j) \<le> length' c"
      using i(3) True by (fastforce simp: nth_append less_Suc_eq)
    ultimately have "first_longest (cs @ [c]) (Some c)"
      unfolding first_longest_def by (auto intro!: exI[of _ "length cs"])
    with True Some show ?thesis by (simp add: is_better_def)
  next
    case False
    have "\<forall>j<length (cs @ [c]). length' ((cs @ [c]) ! j) \<le> length' r"
      using i(3) False by (fastforce simp: nth_append less_Suc_eq)
    moreover have "\<forall>j<i. length' ((cs @ [c]) ! j) < length' r"
      using i(1,4) by (simp add: nth_append)
    moreover have "(cs @ [c]) ! i = r" "i < length (cs @ [c])"
      using i(1,2) by (simp_all add: nth_append)
    ultimately have "first_longest (cs @ [c]) (Some r)"
      unfolding first_longest_def by auto
    with False Some show ?thesis by (simp add: is_better_def)
  qed
qed

lemma phrase_tokens_first_longest:
  "first_longest cs b \<Longrightarrow>
   first_longest
     (cs @ map (\<lambda>token. \<lparr>keyword = token, matchType = S ''phrase'', length' = len token,
                      category = BaseName (Info catEntry),
                      returnValue = ReturnValue (Info catEntry)\<rparr>)
           (filter (\<lambda>token. raw entry = token) tokens))
     (phrase_tokens catEntry entry tokens b)"
proof (induction tokens arbitrary: cs b)
  case Nil
  then show ?case by simp
next
  case (Cons token tokens)
  show ?case
  proof (cases "raw entry = token")
    case True
    let ?c = "\<lparr>keyword = token, matchType = S ''phrase'', length' = len token,
               category = BaseName (Info catEntry), returnValue = ReturnValue (Info catEntry)\<rparr>"
    have "first_longest (cs @ [?c]) (if is_better (length' ?c) b then Some ?c else b)"
      using Cons.prems by (rule first_longest_step)
    from Cons.IH[OF this] True show ?thesis by simp
  next
    case False
    with Cons.IH[OF Cons.prems] show ?thesis by simp
  qed
qed

lemma phrase_keywords_first_longest:
  "first_longest cs b \<Longrightarrow>
   first_longest
     (cs @ concat (map (\<lambda>entry.
       map (\<lambda>token. \<lparr>keyword = token, matchType = S ''phrase'', length' = len token,
                      category = BaseName (Info catEntry),
                      returnValue = ReturnValue (Info catEntry)\<rparr>)
           (filter (\<lambda>token. raw entry = token) tokens)) entries))
     (phrase_keywords catEntry tokens entries b)"
proof (induction entries arbitrary: cs b)
  case Nil
  then show ?case by simp
next
  case (Cons entry entries)
  from Cons.IH[OF phrase_tokens_first_longest[OF Cons.prems, of catEntry entry tokens]]
  show ?case by simp
qed

lemma substring_keywords_first_longest:
  "first_longest cs b \<Longrightarrow>
   first_longest
     (cs @ map (\<lambda>entry. \<lparr>keyword = raw entry, matchType = S ''substring'',
                    length' = len (raw entry), category = BaseName (Info catEntry),
                    returnValue = ReturnValue (Info catEntry)\<rparr>)
         (filter (\<lambda>entry. MatchString (regex entry) normalized) entries))
     (substring_keywords normalized catEntry entries b)"
proof (induction entries arbitrary: cs b)
  case Nil
  then show ?case by simp
next
  case (Cons entry entries)
  show ?case
  proof (cases "MatchString (regex entry) normalized")
    case True
    let ?c = "\<lparr>keyword = raw entry, matchType = S ''substring'', length' = len (raw entry),
               category = BaseName (Info catEntry), returnValue = ReturnValue (Info catEntry)\<rparr>"
    have "first_longest (cs @ [?c]) (if is_better (length' ?c) b then Some ?c else b)"
      using Cons.prems by (rule first_longest_step)
    from Cons.IH[OF this] True show ?thesis by simp
  next
    case False
    with Cons.IH[OF Cons.prems] show ?thesis by simp
  qed
qed

lemma partial_categories_first_longest:
  "first_longest cs b \<Longrightarrow>
   first_longest (cs @ candidates normalized categories)
     (partial_categories normalized categories b)"
proof (induction categories arbitrary: cs b)
  case Nil
  then show ?case by (simp add: candidates_def)
next
  case (Cons catEntry categories)
  have 1: "first_longest (cs @ phrase_candidates catEntry (tokenize normalized))
      (phrase_keywords catEntry (tokenize normalized) (Keywords catEntry) b)"
    unfolding phrase_candidates_def using Cons.prems by (rule phrase_keywords_first_longest)
  have 2: "first_longest
      ((cs @ phrase_candidates catEntry (tokenize normalized)) @
        substring_candidates normalized catEntry)
      (substring_keywords normalized catEntry (Keywords catEntry)
        (phrase_keywords catEntry (tokenize normalized) (Keywords catEntry) b))"
    unfolding substring_candidates_def using 1 by (rule substring_keywords_first_longest)
  from Cons.IH[OF 2] show ?case by (simp add: candidates_def Let_def)
qed

lemma candidates_iff:
  "c \<in> set (candidates normalized categories) \<longleftrightarrow>
     (\<exists>catEntry\<in>set categories. \<exists>entry\<in>set (Keywords catEntry).
        keyword c = raw entry \<and> length' c = len (raw entry) \<and>
        category c = BaseName (Info catEntry) \<and> returnValue c = ReturnValue (Info catEntry) \<and>
        (matchType c = S ''phrase'' \<and> raw entry \<in> set (tokenize normalized) \<or>
         matchType c = S ''substring'' \<and> MatchString (regex entry) normalized))"
  unfolding candidates_def phrase_candidates_def substring_candidates_def
  by (cases c) (auto simp: S_def)


lemma findBestMatch_partial:
  assumes "exact_categories (normalizeText U km tx) categories = None"
  shows "first_longest (candidates (normalizeText U km tx) categories)
           (findBestMatch U km tx categories)"
proof -
  have "first_longest [] None" by (simp add: first_longest_def)
  from partial_categories_first_longest[OF this, of "normalizeText U km tx" categories]
  show ?thesis using assms by (simp add: findBestMatch_def Let_def)
qed

text \<open>
  C1 (as amended). When \<open>findBestMatch\<close> does not return through the exact tier, its
  result is a candidate of the phrase or substring tier (a keyword of one of the buckets
  that equals a token or whose pattern matches the normalized text) whose matched string
  is at least as long as that of every candidate, whatever its tier or category, and
  strictly longer than that of every candidate evaluated before it; it is absent exactly
  when there is no candidate. The length compared is \<open>len\<close>, the number of bytes of the
  UTF-8 encoding, not the number of characters.
\<close>

theorem findBestMatch_longest_first:
  assumes "exact_categories (normalizeText U km tx) categories = None"
  shows "(candidates (normalizeText U km tx) categories = [] \<longrightarrow>
            findBestMatch U km tx categories = None)
       \<and> (candidates (normalizeText U km tx) categories \<noteq> [] \<longrightarrow>
            (\<exists>i<length (candidates (normalizeText U km tx) categories).
               findBestMatch U km tx categories =
                 Some (candidates (normalizeText U km tx) categories ! i) \<and>
               (\<forall>j<length (candidates (normalizeText U km tx) categories).
                  len (keyword (candidates (normalizeText U km tx) categories ! j))
                    \<le> len (keyword (candidates (normalizeText U km tx) categories ! i))) \<and>
               (\<forall>j<i. len (keyword (candidates (normalizeText U km tx) categories ! j))
                    < len (keyword (candidates (normalizeText U km tx) categories ! i)))))
       \<and> (\<forall>c. c \<in> set (candidates (normalizeText U km tx) categories) \<longleftrightarrow>
            (\<exists>catEntry\<in>set categories. \<exists>entry\<in>set (Keywords catEntry).
               keyword c = raw entry \<and> length' c = len (raw entry) \<and>
               category c = BaseName (Info catEntry) \<and>
               returnValue c = ReturnValue (Info catEntry) \<and>
               (matchType c = S ''phrase'' \<and> raw entry \<in> set (tokenize (normalizeText U km tx)) \<or>
                matchType c = S ''substring'' \<and>
                  MatchString (regex entry) (normalizeText U km tx))))"
proof -
  let ?cs = "candidates (normalizeText U km tx) categories"
  have fl: "first_longest ?cs (findBestMatch U km tx categories)"
    using assms by (rule findBestMatch_partial)
  have len: "length' (?cs ! j) = len (keyword (?cs ! j))" if "j < length ?cs" for j
  proof -
    from that have "?cs ! j \<in> set ?cs" by simp
    then show ?thesis unfolding candidates_iff by auto
  qed
  have a: "?cs = [] \<longrightarrow> findBestMatch U km tx categories = None"
    using fl by (auto simp: first_longest_def split: option.splits)
  have b: "?cs \<noteq> [] \<longrightarrow>
      (\<exists>i<length ?cs. findBestMatch U km tx categories = Some (?cs ! i) \<and>
         (\<forall>j<length ?cs. len (keyword (?cs ! j)) \<le> len (keyword (?cs ! i))) \<and>
         (\<forall>j<i. len (keyword (?cs ! j)) < len (keyword (?cs ! i))))"
  proof
    assume ne: "?cs \<noteq> []"
    with fl obtain r where r: "findBestMatch U km tx categories = Some r"
      by (cases "findBestMatch U km tx categories") (auto simp: first_longest_def)
    with fl obtain i where i: "i < length ?cs" "?cs ! i = r"
      "\<forall>j<length ?cs. length' (?cs ! j) \<le> length' r" "\<forall>j<i. length' (?cs ! j) < length' r"
      by (auto simp: first_longest_def)
    have "\<forall>j<length ?cs. len (keyword (?cs ! j)) \<le> len (keyword (?cs ! i))"
      using i len by force
    moreover have "\<forall>j<i. len (keyword (?cs ! j)) < len (keyword (?cs ! i))"
    proof (intro allI impI)
      fix j assume "j < i"
      with i have "length' (?cs ! j) < length' (?cs ! i)" "j < length ?cs" by auto
      then show "len (keyword (?cs ! j)) < len (keyword (?cs ! i))"
        using len i(1) by simp
    qed
    ultimately show "\<exists>i<length ?cs. findBestMatch U km tx categories = Some (?cs ! i) \<and>
         (\<forall>j<length ?cs. len (keyword (?cs ! j)) \<le> len (keyword (?cs ! i))) \<and>
         (\<forall>j<i. len (keyword (?cs ! j)) < len (keyword (?cs ! i)))"
      using i(1,2) r by blast
  qed
  from a b show ?thesis using candidates_iff by blast
qed


subsection \<open>Evaluation of the longest-match example\<close>

lemmas string_eval = S_def IsSpace_def Fields.simps TrimSpace_def ToLower_def unicode_ToLower_def
  re_space_def contraction_list_def

lemma normalize_please:
  "normalizeText ascii_lib empty_matcher (S ''please do not call me'') = S ''please do not call me''"
  by (simp add: normalizeText_def empty_matcher_def ascii_lib_def string_eval)

lemma Fields_please:
  "Fields (S ''please do not call me'') = [S ''please'', S ''do'', S ''not'', S ''call'', S ''me'']"
  by (simp add: string_eval)

lemma tokenize_please:
  "tokenize (S ''please do not call me'') =
    [S ''please'', S ''do'', S ''not'', S ''call'', S ''me'', S ''please do'', S ''do not'',
     S ''not call'', S ''call me'', S ''please do not'', S ''do not call'', S ''not call me'',
     S ''please do not call'', S ''do not call me'', S ''please do not call me'']"
  unfolding tokenize_eq Fields_please
  by (simp add: ngrams_def S_def upt_rec numeral_2_eq_2 numeral_3_eq_3 eval_nat_numeral)

lemma match_call:
  "MatchString (WordBoundary # map Lit (S ''call'') @ [WordBoundary]) (S ''please do not call me'')"
  by (simp add: MatchString_def S_def upt_rec word_boundary_def isWordChar_def)

lemma match_do_not_call:
  "MatchString (WordBoundary # map Lit (S ''do not call'') @ [WordBoundary])
     (S ''please do not call me'')"
  by (simp add: MatchString_def S_def upt_rec word_boundary_def isWordChar_def)

lemma candidates_please:
  "candidates (S ''please do not call me'') [example_bucket] =
   [\<lparr>keyword = S ''call'', matchType = S ''phrase'', length' = 4,
      category = S ''donotcall'', returnValue = S ''DO_NOT_CALL''\<rparr>,
    \<lparr>keyword = S ''do not call'', matchType = S ''phrase'', length' = 11,
      category = S ''donotcall'', returnValue = S ''DO_NOT_CALL''\<rparr>,
    \<lparr>keyword = S ''call'', matchType = S ''substring'', length' = 4,
      category = S ''donotcall'', returnValue = S ''DO_NOT_CALL''\<rparr>,
    \<lparr>keyword = S ''do not call'', matchType = S ''substring'', length' = 11,
      category = S ''donotcall'', returnValue = S ''DO_NOT_CALL''\<rparr>]"
  unfolding candidates_def phrase_candidates_def substring_candidates_def tokenize_please
    example_bucket_def
  using match_call match_do_not_call by (simp add: S_def len_def RuneLen_def)

theorem findBestMatch_longest_first_witness:
  "exact_categories (normalizeText ascii_lib empty_matcher (S ''please do not call me''))
     [example_bucket] = None
   \<and> candidates (normalizeText ascii_lib empty_matcher (S ''please do not call me''))
       [example_bucket] \<noteq> []
   \<and> findBestMatch ascii_lib empty_matcher (S ''please do not call me'') [example_bucket] =
       Some \<lparr>keyword = S ''do not call'', matchType = S ''phrase'', length' = 11,
              category = S ''donotcall'', returnValue = S ''DO_NOT_CALL''\<rparr>"
proof -
  let ?cs = "candidates (S ''please do not call me'') [example_bucket]"
  have ex: "exact_categories (normalizeText ascii_lib empty_matcher (S ''please do not call me''))
      [example_bucket] = None"
    unfolding normalize_please by (simp add: example_bucket_def S_def)
  have ne: "?cs \<noteq> []" unfolding candidates_please by simp
  from findBestMatch_longest_first[OF ex, unfolded normalize_please] ne
  obtain i where i: "i < length ?cs"
    "findBestMatch ascii_lib empty_matcher (S ''please do not call me'') [example_bucket] =
       Some (?cs ! i)"
    "\<forall>j<length ?cs. len (keyword (?cs ! j)) \<le> len (keyword (?cs ! i))"
    "\<forall>j<i. len (keyword (?cs ! j)) < len (keyword (?cs ! i))"
    by blast
  have l4: "len (S ''call'') = 4" and l11: "len (S ''do not call'') = 11"
    by (simp_all add: len_def RuneLen_def S_def)
  from i(1) have "i < 4" unfolding candidates_please by simp
  then consider "i = 0" | "i = 1" | "i = 2" | "i = 3" by linarith
  then have "i = 1"
  proof cases
    case 1
    with i(3)[rule_format, of 1] show ?thesis
      unfolding candidates_please by (simp add: l4 l11)
  next
    case 2
    then show ?thesis .
  next
    case 3
    with i(3)[rule_format, of 1] show ?thesis
      unfolding candidates_please by (simp add: l4 l11)
  next
    case 4
    with i(4)[rule_format, of 1] show ?thesis
      unfolding candidates_please by (simp add: l4 l11)
  qed
  with i(2) have "findBestMatch ascii_lib empty_matcher (S ''please do not call me'') [example_bucket] =
       Some \<lparr>keyword = S ''do not call'', matchType = S ''phrase'', length' = 11,
              category = S ''donotcall'', returnValue = S ''DO_NOT_CALL''\<rparr>"
    unfolding candidates_please by simp
  with ex ne show ?thesis unfolding normalize_please by simp
qed

subsection \<open>Keywords outside ASCII\<close>

lemma normalize_accents:
  "normalizeText latin_lib empty_matcher (S ''abcdef'') = S ''abcdef''"
  "normalizeText latin_lib empty_matcher (S ''caf'' @ [0xE9, 0x20AC]) = S ''cafe'' @ [0x301, 0x20AC]"
  "normalizeText latin_lib empty_matcher (S ''abcde'') = S ''abcde''"
  "normalizeText latin_lib empty_matcher [0xE9, 0xE9] = [0x65, 0x301, 0x65, 0x301]"
  "normalizeText latin_lib empty_matcher (S ''abcdef caf'' @ [0xE9, 0x20AC]) =
     S ''abcdef cafe'' @ [0x301, 0x20AC]"
  "normalizeText latin_lib empty_matcher (S ''say abcde '' @ [0xE9, 0xE9]) =
     S ''say abcde '' @ [0x65, 0x301, 0x65, 0x301]"
  by (simp_all add: normalizeText_def empty_matcher_def latin_lib_def latin_decomp_def string_eval)

lemma accent_keywords:
  "map raw (Keywords accent_bucket) =
     [S ''abcdef'', S ''cafe'' @ [0x301, 0x20AC], S ''abcde'', [0x65, 0x301, 0x65, 0x301]]"
  by (simp add: accent_bucket_def keyword_entries_def normalize_accents) (simp add: S_def)

lemma tokenize_accents:
  "tokenize (S ''abcdef cafe'' @ [0x301, 0x20AC]) =
     [S ''abcdef'', S ''cafe'' @ [0x301, 0x20AC], S ''abcdef cafe'' @ [0x301, 0x20AC]]"
  "tokenize (S ''say abcde '' @ [0x65, 0x301, 0x65, 0x301]) =
     [S ''say'', S ''abcde'', [0x65, 0x301, 0x65, 0x301], S ''say abcde'',
      S ''abcde '' @ [0x65, 0x301, 0x65, 0x301], S ''say abcde '' @ [0x65, 0x301, 0x65, 0x301]]"
proof -
  have "Fields (S ''abcdef cafe'' @ [0x301, 0x20AC]) = [S ''abcdef'', S ''cafe'' @ [0x301, 0x20AC]]"
    by (simp add: string_eval)
  then show "tokenize (S ''abcdef cafe'' @ [0x301, 0x20AC]) =
     [S ''abcdef'', S ''cafe'' @ [0x301, 0x20AC], S ''abcdef cafe'' @ [0x301, 0x20AC]]"
    unfolding tokenize_eq
    by (simp add: ngrams_def S_def upt_rec numeral_2_eq_2 numeral_3_eq_3 eval_nat_numeral)
  have "Fields (S ''say abcde '' @ [0x65, 0x301, 0x65, 0x301]) =
      [S ''say'', S ''abcde'', [0x65, 0x301, 0x65, 0x301]]"
    by (simp add: string_eval)
  then show "tokenize (S ''say abcde '' @ [0x65, 0x301, 0x65, 0x301]) =
     [S ''say'', S ''abcde'', [0x65, 0x301, 0x65, 0x301], S ''say abcde'',
      S ''abcde '' @ [0x65, 0x301, 0x65, 0x301], S ''say abcde '' @ [0x65, 0x301, 0x65, 0x301]]"
    unfolding tokenize_eq
    by (simp add: ngrams_def S_def upt_rec numeral_2_eq_2 numeral_3_eq_3 eval_nat_numeral)
qed

lemma accent_entries:
  "Keywords accent_bucket =
     [\<lparr>raw = S ''abcdef'', regex = WordBoundary # map Lit (S ''abcdef'') @ [WordBoundary]\<rparr>,
      \<lparr>raw = S ''cafe'' @ [0x301, 0x20AC],
        regex = WordBoundary # map Lit (S ''cafe'' @ [0x301, 0x20AC]) @ [WordBoundary]\<rparr>,
      \<lparr>raw = S ''abcde'', regex = WordBoundary # map Lit (S ''abcde'') @ [WordBoundary]\<rparr>,
      \<lparr>raw = [0x65, 0x301, 0x65, 0x301],
        regex = WordBoundary # map Lit [0x65, 0x301, 0x65, 0x301] @ [WordBoundary]\<rparr>]"
  by (simp add: accent_bucket_def keyword_entries_def normalize_accents) (simp add: S_def)

lemma accent_info:
  "BaseName (Info accent_bucket) = S ''interested''"
  "ReturnValue (Info accent_bucket) = S ''INTERESTED''"
  by (simp_all add: accent_bucket_def)

lemma match_accents_1:
  "MatchString (WordBoundary # map Lit (S ''abcdef'') @ [WordBoundary])
     (S ''abcdef cafe'' @ [0x301, 0x20AC])"
  "\<not> MatchString (WordBoundary # map Lit (S ''cafe'' @ [0x301, 0x20AC]) @ [WordBoundary])
     (S ''abcdef cafe'' @ [0x301, 0x20AC])"
  "\<not> MatchString (WordBoundary # map Lit (S ''abcde'') @ [WordBoundary])
     (S ''abcdef cafe'' @ [0x301, 0x20AC])"
  "\<not> MatchString (WordBoundary # map Lit [0x65, 0x301, 0x65, 0x301] @ [WordBoundary])
     (S ''abcdef cafe'' @ [0x301, 0x20AC])"
  by (simp_all add: MatchString_def S_def upt_rec word_boundary_def isWordChar_def)

lemma match_accents_2:
  "\<not> MatchString (WordBoundary # map Lit (S ''abcdef'') @ [WordBoundary])
     (S ''say abcde '' @ [0x65, 0x301, 0x65, 0x301])"
  "\<not> MatchString (WordBoundary # map Lit (S ''cafe'' @ [0x301, 0x20AC]) @ [WordBoundary])
     (S ''say abcde '' @ [0x65, 0x301, 0x65, 0x301])"
  "MatchString (WordBoundary # map Lit (S ''abcde'') @ [WordBoundary])
     (S ''say abcde '' @ [0x65, 0x301, 0x65, 0x301])"
  "\<not> MatchString (WordBoundary # map Lit [0x65, 0x301, 0x65, 0x301] @ [WordBoundary])
     (S ''say abcde '' @ [0x65, 0x301, 0x65, 0x301])"
  by (simp_all add: MatchString_def S_def upt_rec word_boundary_def isWordChar_def)

lemma candidates_accents_1:
  "candidates (S ''abcdef cafe'' @ [0x301, 0x20AC]) [accent_bucket] =
     [\<lparr>keyword = S ''abcdef'', matchType = S ''phrase'', length' = 6,
        category = S ''interested'', returnValue = S ''INTERESTED''\<rparr>,
      \<lparr>keyword = S ''cafe'' @ [0x301, 0x20AC], matchType = S ''phrase'', length' = 9,
        category = S ''interested'', returnValue = S ''INTERESTED''\<rparr>,
      \<lparr>keyword = S ''abcdef'', matchType = S ''substring'', length' = 6,
        category = S ''interested'', returnValue = S ''INTERESTED''\<rparr>]"
  unfolding candidates_def phrase_candidates_def substring_candidates_def tokenize_accents
  using match_accents_1 by (simp add: accent_entries accent_info S_def len_def RuneLen_def)

lemma candidates_accents_2:
  "candidates (S ''say abcde '' @ [0x65, 0x301, 0x65, 0x301]) [accent_bucket] =
     [\<lparr>keyword = S ''abcde'', matchType = S ''phrase'', length' = 5,
        category = S ''interested'', returnValue = S ''INTERESTED''\<rparr>,
      \<lparr>keyword = [0x65, 0x301, 0x65, 0x301], matchType = S ''phrase'', length' = 6,
        category = S ''interested'', returnValue = S ''INTERESTED''\<rparr>,
      \<lparr>keyword = S ''abcde'', matchType = S ''substring'', length' = 5,
        category = S ''interested'', returnValue = S ''INTERESTED''\<rparr>]"
  unfolding candidates_def phrase_candidates_def substring_candidates_def tokenize_accents
  using match_accents_2 by (simp add: accent_entries accent_info S_def len_def RuneLen_def)

lemma findBestMatch_accents:
  "findBestMatch latin_lib empty_matcher (S ''abcdef caf'' @ [0xE9, 0x20AC]) [accent_bucket] =
     Some \<lparr>keyword = S ''cafe'' @ [0x301, 0x20AC], matchType = S ''phrase'', length' = 9,
        category = S ''interested'', returnValue = S ''INTERESTED''\<rparr>"
  "findBestMatch latin_lib empty_matcher (S ''say abcde '' @ [0xE9, 0xE9]) [accent_bucket] =
     Some \<lparr>keyword = [0x65, 0x301, 0x65, 0x301], matchType = S ''phrase'', length' = 6,
        category = S ''interested'', returnValue = S ''INTERESTED''\<rparr>"
  unfolding findBestMatch_def Let_def normalize_accents partial_categories.simps tokenize_accents
  using match_accents_1 match_accents_2
  by (simp_all add: accent_entries accent_info is_better_def S_def len_def RuneLen_def)

text \<open>Counted in characters the result is not the longest candidate: a keyword of six
  characters and nine bytes wins over an earlier one of six characters and six bytes, and a
  keyword of four characters and six bytes over one of five characters and five bytes.\<close>

theorem findBestMatch_character_length_counterexample:
  "map raw (Keywords accent_bucket) =
     [S ''abcdef'', S ''cafe'' @ [0x301, 0x20AC], S ''abcde'', [0x65, 0x301, 0x65, 0x301]]
   \<and> exact_categories (normalizeText latin_lib empty_matcher (S ''abcdef caf'' @ [0xE9, 0x20AC]))
       [accent_bucket] = None
   \<and> map keyword (candidates (normalizeText latin_lib empty_matcher
         (S ''abcdef caf'' @ [0xE9, 0x20AC])) [accent_bucket]) =
       [S ''abcdef'', S ''cafe'' @ [0x301, 0x20AC], S ''abcdef'']
   \<and> map_option keyword
         (findBestMatch latin_lib empty_matcher (S ''abcdef caf'' @ [0xE9, 0x20AC]) [accent_bucket]) =
       Some (S ''cafe'' @ [0x301, 0x20AC])
   \<and> length (S ''abcdef'') = 6 \<and> length (S ''cafe'' @ [0x301, 0x20AC]) = 6
   \<and> len (S ''abcdef'') = 6 \<and> len (S ''cafe'' @ [0x301, 0x20AC]) = 9
   \<and> exact_categories (normalizeText latin_lib empty_matcher (S ''say abcde '' @ [0xE9, 0xE9]))
       [accent_bucket] = None
   \<and> map keyword (candidates (normalizeText latin_lib empty_matcher
         (S ''say abcde '' @ [0xE9, 0xE9])) [accent_bucket]) =
       [S ''abcde'', [0x65, 0x301, 0x65, 0x301], S ''abcde'']
   \<and> map_option keyword
         (findBestMatch latin_lib empty_matcher (S ''say abcde '' @ [0xE9, 0xE9]) [accent_bucket]) =
       Some [0x65, 0x301, 0x65, 0x301]
   \<and> length (S ''abcde'') = 5 \<and> length [0x65, 0x301, 0x65, 0x301 :: rune] = 4
   \<and> len (S ''abcde'') = 5 \<and> len [0x65, 0x301, 0x65, 0x301] = 6"
proof -
  have e: "exact_categories (S ''abcdef cafe'' @ [0x301, 0x20AC]) [accent_bucket] = None"
    "exact_categories (S ''say abcde '' @ [0x65, 0x301, 0x65, 0x301]) [accent_bucket] = None"
    by (simp_all add: accent_entries S_def)
  have l: "length (S ''abcdef'') = 6" "length (S ''cafe'' @ [0x301, 0x20AC]) = 6"
    "len (S ''abcdef'') = 6" "len (S ''cafe'' @ [0x301, 0x20AC]) = 9"
    "length (S ''abcde'') = 5" "len (S ''abcde'') = 5" "len [0x65, 0x301, 0x65, 0x301] = 6"
    by (simp_all add: S_def len_def RuneLen_def)
  show ?thesis
    unfolding normalize_accents candidates_accents_1 candidates_accents_2 findBestMatch_accents
      accent_keywords
    using e l by simp
qed


section \<open>Stage processing\<close>

lemma exact_keywords_label:
  "exact_keywords n c es = Some r \<Longrightarrow> returnValue r = ReturnValue (Info c)"
  by (induction es) (auto split: if_splits)

lemma exact_categories_label:
  "exact_categories n cats = Some r \<Longrightarrow> \<exists>c\<in>set cats. returnValue r = ReturnValue (Info c)"
  by (induction cats) (auto split: option.splits dest: exact_keywords_label)

lemma exact_categories_None_iff:
  "exact_categories n cats = None \<longleftrightarrow> (\<forall>c\<in>set cats. exact_categories n [c] = None)"
  by (induction cats) (auto split: option.splits)

lemma candidates_Nil_iff:
  "candidates n cats = [] \<longleftrightarrow> (\<forall>c\<in>set cats. candidates n [c] = [])"
  by (auto simp: candidates_def)

lemma findBestMatch_None_iff':
  "findBestMatch U km tx cats = None \<longleftrightarrow>
     exact_categories (normalizeText U km tx) cats = None \<and>
     candidates (normalizeText U km tx) cats = []"
proof (cases "exact_categories (normalizeText U km tx) cats")
  case None
  from findBestMatch_partial[OF None] show ?thesis
    using None by (auto simp: first_longest_def split: option.splits)
next
  case (Some r)
  then show ?thesis by (simp add: findBestMatch_def)
qed

lemma findBestMatch_None_iff:
  "findBestMatch U km tx cats = None \<longleftrightarrow> (\<forall>c\<in>set cats. findBestMatch U km tx [c] = None)"
  unfolding findBestMatch_None_iff'
  using exact_categories_None_iff[of "normalizeText U km tx" cats]
    candidates_Nil_iff[of "normalizeText U km tx" cats] by blast

lemma findBestMatch_label:
  assumes "findBestMatch U km tx cats = Some r"
  shows "\<exists>c\<in>set cats. returnValue r = ReturnValue (Info c)"
proof (cases "exact_categories (normalizeText U km tx) cats")
  case None
  from findBestMatch_partial[OF None] assms
  have "r \<in> set (candidates (normalizeText U km tx) cats)"
    by (auto simp: first_longest_def)
  then show ?thesis unfolding candidates_iff by blast
next
  case (Some r')
  with assms have "r' = r" by (simp add: findBestMatch_def)
  with Some show ?thesis by (auto dest: exact_categories_label)
qed

lemma normalizeText_contractions:
  "contractions km = contractions km' \<Longrightarrow> normalizeText U km tx = normalizeText U km' tx"
  by (simp add: normalizeText_def)

lemma findBestMatch_contractions:
  "contractions km = contractions km' \<Longrightarrow> findBestMatch U km tx cats = findBestMatch U km' tx cats"
  by (simp add: findBestMatch_def normalizeText_contractions[of km km'])

lemma findBestMatch_substring:
  assumes "c \<in> set cats" "entry \<in> set (Keywords c)"
    "MatchString (regex entry) (normalizeText U km tx)"
  shows "findBestMatch U km tx cats \<noteq> None"
proof
  assume "findBestMatch U km tx cats = None"
  then have "candidates (normalizeText U km tx) cats = []"
    by (simp add: findBestMatch_None_iff')
  then have "\<And>x. x \<notin> set (candidates (normalizeText U km tx) cats)" by simp
  moreover have "\<lparr>keyword = raw entry, matchType = S ''substring'', length' = len (raw entry),
      category = BaseName (Info c), returnValue = ReturnValue (Info c)\<rparr>
      \<in> set (candidates (normalizeText U km tx) cats)"
    unfolding candidates_iff using assms by auto
  ultimately show False by blast
qed

lemma findBestMatch_no_candidate:
  assumes "\<forall>c\<in>set cats. \<forall>entry\<in>set (Keywords c).
      raw entry \<noteq> normalizeText U km tx \<and> raw entry \<notin> set (tokenize (normalizeText U km tx)) \<and>
      \<not> MatchString (regex entry) (normalizeText U km tx)"
  shows "findBestMatch U km tx cats = None"
proof -
  have "exact_keywords n c es = None" if "\<forall>e\<in>set es. raw e \<noteq> n" for n c es
    using that by (induction es) auto
  then have "exact_categories (normalizeText U km tx) cats = None"
    using assms by (induction cats) auto
  moreover have "candidates (normalizeText U km tx) cats = []"
  proof (rule ccontr)
    assume "candidates (normalizeText U km tx) cats \<noteq> []"
    then obtain x where "x \<in> set (candidates (normalizeText U km tx) cats)"
      by (cases "candidates (normalizeText U km tx) cats") auto
    then show False unfolding candidates_iff using assms by auto
  qed
  ultimately show ?thesis by (simp add: findBestMatch_None_iff')
qed

text \<open>
  C2. Whenever some hardcoded category of a stage of the matcher matches the text under
  \<open>findBestMatch\<close>, both versions of \<open>ProcessStage\<close> return the label that
  \<open>findBestMatch\<close> yields on the hardcoded categories taken as one group, which is the
  label of a hardcoded category of that stage; the prioritized categories and their
  priorities play no part.
\<close>

theorem hardcoded_first:
  assumes "stageMap km stage = Some stageData"
    and "\<exists>c\<in>set (Hardcoded stageData). findBestMatch U km tx [c] \<noteq> None"
  shows "\<exists>r. findBestMatch U km tx (Hardcoded stageData) = Some r
      \<and> ProcessStage U km tx stage = returnValue r
      \<and> ProcessStage_special U km tx stage = returnValue r
      \<and> (\<exists>h\<in>set (Hardcoded stageData). returnValue r = ReturnValue (Info h))"
proof -
  from assms(2) have "findBestMatch U km tx (Hardcoded stageData) \<noteq> None"
    using findBestMatch_None_iff[of U km tx "Hardcoded stageData"] by auto
  then obtain r where r: "findBestMatch U km tx (Hardcoded stageData) = Some r" by auto
  from assms(2) have ne: "Hardcoded stageData \<noteq> []" by auto
  have "ProcessStage U km tx stage = returnValue r"
    using assms(1) r ne by (simp add: ProcessStage_def)
  moreover have "ProcessStage_special U km tx stage = returnValue r"
    using assms(1) r ne by (simp add: ProcessStage_special_def Let_def)
  ultimately show ?thesis using r findBestMatch_label[OF r] by blast
qed


subsection \<open>Evaluation of the stage examples\<close>

lemma example_matcher_contractions: "contractions example_matcher = contractions empty_matcher"
  by (simp add: example_matcher_def)

lemma normalize_test_call:
  "normalizeText ascii_lib empty_matcher (S ''this is a test call'') = S ''this is a test call''"
  by (simp add: normalizeText_def empty_matcher_def ascii_lib_def string_eval)

lemma match_test_call:
  "MatchString (WordBoundary # map Lit (S ''test call'') @ [WordBoundary])
     (S ''this is a test call'')"
  by (simp add: MatchString_def S_def upt_rec word_boundary_def isWordChar_def)

lemma match_call_test_call:
  "MatchString (WordBoundary # map Lit (S ''call'') @ [WordBoundary]) (S ''this is a test call'')"
  by (simp add: MatchString_def S_def upt_rec word_boundary_def isWordChar_def)

theorem hardcoded_first_witness:
  "stageMap example_matcher (S ''s3'') = Some example_stage
   \<and> (\<exists>c\<in>set (Hardcoded example_stage).
        findBestMatch ascii_lib example_matcher (S ''this is a test call'') [c] \<noteq> None)
   \<and> findBestMatch ascii_lib example_matcher (S ''this is a test call'')
        (Prioritized example_stage) \<noteq> None
   \<and> ProcessStage ascii_lib example_matcher (S ''this is a test call'') (S ''s3'') = S ''HONEYPOT''
   \<and> ProcessStage_special ascii_lib example_matcher (S ''this is a test call'') (S ''s3'') =
       S ''HONEYPOT''"
proof -
  have n: "normalizeText ascii_lib example_matcher (S ''this is a test call'') =
      S ''this is a test call''"
    using normalizeText_contractions[OF example_matcher_contractions] normalize_test_call by simp
  have sm: "stageMap example_matcher (S ''s3'') = Some example_stage"
    by (simp add: example_matcher_def)
  have h: "findBestMatch ascii_lib example_matcher (S ''this is a test call'') [honeypot_bucket]
      \<noteq> None"
    by (rule findBestMatch_substring[where c = honeypot_bucket and entry = "hd (Keywords honeypot_bucket)"])
      (simp_all add: n honeypot_bucket_def match_test_call)
  then have hyp: "\<exists>c\<in>set (Hardcoded example_stage).
        findBestMatch ascii_lib example_matcher (S ''this is a test call'') [c] \<noteq> None"
    by (simp add: example_stage_def)
  have p: "findBestMatch ascii_lib example_matcher (S ''this is a test call'')
        (Prioritized example_stage) \<noteq> None"
    by (rule findBestMatch_substring[where c = example_bucket and entry = "hd (Keywords example_bucket)"])
      (simp_all add: n example_stage_def example_bucket_def match_call_test_call)
  from hardcoded_first[OF sm hyp] obtain r :: matchResult where
    r: "ProcessStage ascii_lib example_matcher (S ''this is a test call'') (S ''s3'') = returnValue r"
      "ProcessStage_special ascii_lib example_matcher (S ''this is a test call'') (S ''s3'') =
        returnValue r"
      "\<exists>h\<in>set (Hardcoded example_stage). returnValue r = ReturnValue (Info h)"
    by auto
  from r(3) have "returnValue r = S ''HONEYPOT''"
    by (simp add: example_stage_def honeypot_bucket_def)
  with r(1,2) sm hyp p show ?thesis by simp
qed


lemma priority_groups_run:
  assumes "cur \<noteq> []" "\<forall>c\<in>set cur. Priority (Info c) = p"
  shows "priority_groups (cur @ ys) =
     (cur @ takeWhile (\<lambda>d. Priority (Info d) = p) ys) #
     priority_groups (dropWhile (\<lambda>d. Priority (Info d) = p) ys)"
proof -
  from assms obtain c cur' where cur: "cur = c # cur'" by (cases cur) auto
  with assms have p: "Priority (Info c) = p" "\<And>x. x \<in> set cur' \<Longrightarrow> Priority (Info x) = p"
    by auto
  show ?thesis unfolding cur using p
    by (simp add: takeWhile_append2 dropWhile_append2)
qed

lemma prioritized_loop_groups:
  assumes "xs \<noteq> []" "\<forall>c\<in>set cur. Priority (Info c) = cp"
  shows "prioritized_loop U km tx cp cur xs =
     map_option returnValue (first_group_match U km tx (priority_groups (cur @ xs)))"
  using assms
proof (induction xs arbitrary: cp cur)
  case Nil
  then show ?case by simp
next
  case (Cons c rest)
  show ?case
  proof (cases "Priority (Info c) = cp")
    case True
    let ?cur = "cur @ [c]"
    have all: "\<forall>d\<in>set ?cur. Priority (Info d) = cp" using Cons.prems(2) True by simp
    show ?thesis
    proof (cases "rest = []")
      case rest: True
      have "priority_groups (?cur @ []) = [?cur]"
        using priority_groups_run[of ?cur cp "[]"] all by simp
      then show ?thesis using True rest by (simp split: option.splits)
    next
      case rest: False
      from Cons.IH[OF rest all] show ?thesis using True rest by simp
    qed
  next
    case False
    have t1: "(case findBestMatch U km tx [c] of
                 Some result \<Rightarrow> Some (returnValue result)
               | None \<Rightarrow> prioritized_loop U km tx (Priority (Info c)) [c] []) =
          map_option returnValue (first_group_match U km tx (priority_groups [c]))"
      by (simp split: option.splits)
    have t2: "prioritized_loop U km tx (Priority (Info c)) [c] rest =
          map_option returnValue (first_group_match U km tx (priority_groups (c # rest)))"
      if "rest \<noteq> []"
    proof -
      have "\<forall>d\<in>set [c]. Priority (Info d) = Priority (Info c)" by simp
      from Cons.IH[OF that this] show ?thesis by simp
    qed
    have tail: "(case (if rest = [] then findBestMatch U km tx [c] else None) of
             Some result \<Rightarrow> Some (returnValue result)
           | None \<Rightarrow> prioritized_loop U km tx (Priority (Info c)) [c] rest) =
          map_option returnValue (first_group_match U km tx (priority_groups (c # rest)))"
    proof (cases "rest = []")
      case True
      show ?thesis unfolding True using t1 by (simp del: priority_groups.simps)
    next
      case False
      with t2 show ?thesis by (simp del: priority_groups.simps)
    qed
    have step: "prioritized_loop U km tx cp cur (c # rest) =
        (case (if cur \<noteq> [] then findBestMatch U km tx cur else None) of
           Some result \<Rightarrow> Some (returnValue result)
         | None \<Rightarrow>
            (case (if rest = [] then findBestMatch U km tx [c] else None) of
               Some result \<Rightarrow> Some (returnValue result)
             | None \<Rightarrow> prioritized_loop U km tx (Priority (Info c)) [c] rest))"
      using False by simp
    show ?thesis
    proof (cases "cur = []")
      case True
      then show ?thesis unfolding step tail by simp
    next
      case cur: False
      have "priority_groups (cur @ c # rest) = cur # priority_groups (c # rest)"
        using priority_groups_run[OF cur Cons.prems(2), of "c # rest"] False
        by (simp del: priority_groups.simps)
      then show ?thesis unfolding step tail using cur
        by (simp del: priority_groups.simps split: option.splits)
    qed
  qed
qed

lemma prioritized_loop_start:
  "prioritized_loop U km tx cp [] xs =
     map_option returnValue (first_group_match U km tx (priority_groups xs))"
proof (cases "xs = []")
  case True
  then show ?thesis by simp
next
  case False
  from prioritized_loop_groups[OF False, of "[]" cp U km tx] show ?thesis by simp
qed

lemma sorted_takeWhile_filter:
  assumes "sorted (map f xs)" "\<forall>x\<in>set xs. p \<le> f x"
  shows "takeWhile (\<lambda>x. f x = p) xs = filter (\<lambda>x. f x = p) xs \<and>
         dropWhile (\<lambda>x. f x = p) xs = filter (\<lambda>x. f x \<noteq> p) xs"
  using assms
proof (induction xs)
  case Nil
  show ?case by simp
next
  case (Cons x xs)
  have gt: "f x \<noteq> p \<Longrightarrow> \<forall>y\<in>set xs. f y \<noteq> p"
    using Cons.prems by fastforce
  show ?case
  proof (cases "f x = p")
    case True
    with Cons show ?thesis by simp
  next
    case False
    with gt have "\<forall>y\<in>set xs. f y \<noteq> p" by simp
    then have "filter (\<lambda>x. f x = p) xs = []" "filter (\<lambda>x. f x \<noteq> p) xs = xs"
      by (simp_all add: filter_empty_conv filter_id_conv)
    with False show ?thesis by simp
  qed
qed

lemma priority_groups_sorted:
  "sorted (map (\<lambda>c. Priority (Info c)) xs) \<Longrightarrow> priority_groups xs = groups_by_priority xs"
proof (induction xs rule: priority_groups.induct)
  case 1
  show ?case by (simp add: groups_by_priority_def)
next
  case (2 c cs)
  let ?f = "\<lambda>c. Priority (Info c)"
  let ?p = "?f c"
  let ?rest = "dropWhile (\<lambda>d. ?f d = ?p) cs"
  from "2.prems" have sc: "sorted (map ?f cs)" and ge: "\<forall>x\<in>set cs. ?p \<le> ?f x" by auto
  note tw = sorted_takeWhile_filter[OF sc ge, THEN conjunct1]
    sorted_takeWhile_filter[OF sc ge, THEN conjunct2]
  have rest_sorted: "sorted (map ?f ?rest)"
    unfolding tw using sc by (simp add: sorted_filter)
  have gt: "\<forall>x\<in>set ?rest. ?p < ?f x" unfolding tw using ge by fastforce
  let ?B = "?f ` set ?rest"
  have img: "?f ` set (c # cs) = insert ?p ?B" unfolding tw by auto
  have fin: "finite ?B" by simp
  have notin: "?p \<notin> ?B" using gt by auto
  have slos: "sorted_list_of_set (insert ?p ?B) = ?p # sorted_list_of_set ?B"
  proof -
    have "sorted_list_of_set (insert ?p ?B) = insort ?p (sorted_list_of_set ?B)"
      using fin notin by simp
    also have "\<dots> = ?p # sorted_list_of_set ?B"
      using gt fin by (intro insort_is_Cons) auto
    finally show ?thesis .
  qed
  have same: "filter (\<lambda>d. ?f d = q) (c # cs) = filter (\<lambda>d. ?f d = q) ?rest" if "q \<in> ?B" for q
  proof -
    from that notin have "q \<noteq> ?p" by blast
    then show ?thesis unfolding tw by (auto intro: filter_cong)
  qed
  have "groups_by_priority (c # cs) =
      filter (\<lambda>d. ?f d = ?p) (c # cs) #
      map (\<lambda>q. filter (\<lambda>d. ?f d = q) (c # cs)) (sorted_list_of_set ?B)"
    unfolding groups_by_priority_def img slos by simp
  also have "map (\<lambda>q. filter (\<lambda>d. ?f d = q) (c # cs)) (sorted_list_of_set ?B) =
      map (\<lambda>q. filter (\<lambda>d. ?f d = q) ?rest) (sorted_list_of_set ?B)"
    using same fin by (intro map_cong) auto
  also have "\<dots> = groups_by_priority ?rest" by (simp add: groups_by_priority_def)
  also have "filter (\<lambda>d. ?f d = ?p) (c # cs) = c # takeWhile (\<lambda>d. ?f d = ?p) cs"
    unfolding tw by simp
  finally show ?case using "2.IH"[OF rest_sorted] by simp
qed


lemma priority_groups_subset: "g \<in> set (priority_groups xs) \<Longrightarrow> set g \<subseteq> set xs"
proof (induction xs rule: priority_groups.induct)
  case 1
  then show ?case by simp
next
  case (2 c cs)
  then show ?case
    by (auto dest: set_takeWhileD set_dropWhileD)
qed

lemma first_group_match_None:
  "(\<forall>g\<in>set gs. findBestMatch U km tx g = None) \<Longrightarrow> first_group_match U km tx gs = None"
  by (induction gs) auto

lemma first_group_match_Some_iff:
  "first_group_match U km tx gs = Some r \<longleftrightarrow>
     (\<exists>k<length gs. findBestMatch U km tx (gs ! k) = Some r \<and>
        (\<forall>j<k. findBestMatch U km tx (gs ! j) = None))"
proof (induction gs)
  case Nil
  show ?case by simp
next
  case (Cons g gs)
  show ?case
  proof (cases "findBestMatch U km tx g")
    case None
    have "(\<exists>k<length (g # gs). findBestMatch U km tx ((g # gs) ! k) = Some r \<and>
        (\<forall>j<k. findBestMatch U km tx ((g # gs) ! j) = None)) \<longleftrightarrow>
      (\<exists>k<length gs. findBestMatch U km tx (gs ! k) = Some r \<and>
        (\<forall>j<k. findBestMatch U km tx (gs ! j) = None))" (is "?L \<longleftrightarrow> ?R")
    proof
      assume ?L
      then obtain k where k: "k < length (g # gs)" "findBestMatch U km tx ((g # gs) ! k) = Some r"
        "\<forall>j<k. findBestMatch U km tx ((g # gs) ! j) = None" by blast
      with None obtain k' where k': "k = Suc k'" by (cases k) auto
      have "\<forall>j<k'. findBestMatch U km tx (gs ! j) = None"
      proof (intro allI impI)
        fix j assume "j < k'"
        then have "Suc j < k" using k' by simp
        with k(3) have "findBestMatch U km tx ((g # gs) ! Suc j) = None" by blast
        then show "findBestMatch U km tx (gs ! j) = None" by simp
      qed
      with k k' show ?R by auto
    next
      assume ?R
      then obtain k where k: "k < length gs" "findBestMatch U km tx (gs ! k) = Some r"
        "\<forall>j<k. findBestMatch U km tx (gs ! j) = None" by blast
      have "\<forall>j<Suc k. findBestMatch U km tx ((g # gs) ! j) = None"
      proof (intro allI impI)
        fix j assume "j < Suc k"
        then show "findBestMatch U km tx ((g # gs) ! j) = None"
          using None k(3) by (cases j) auto
      qed
      with k show ?L by (intro exI[of _ "Suc k"]) auto
    qed
    with None Cons show ?thesis by simp
  next
    case (Some r')
    have "(\<exists>k<length (g # gs). findBestMatch U km tx ((g # gs) ! k) = Some r \<and>
        (\<forall>j<k. findBestMatch U km tx ((g # gs) ! j) = None)) \<longleftrightarrow> r' = r" (is "?L \<longleftrightarrow> _")
    proof
      assume ?L
      then obtain k where k: "k < length (g # gs)" "findBestMatch U km tx ((g # gs) ! k) = Some r"
        "\<forall>j<k. findBestMatch U km tx ((g # gs) ! j) = None" by blast
      have "k = 0"
      proof (rule ccontr)
        assume "k \<noteq> 0"
        with k(3) have "findBestMatch U km tx ((g # gs) ! 0) = None" by blast
        with Some show False by simp
      qed
      with k(2) Some show "r' = r" by simp
    next
      assume "r' = r"
      with Some show ?L by (intro exI[of _ 0]) auto
    qed
    with Some show ?thesis by simp
  qed
qed

text \<open>
  C3. For a stage whose prioritized list is sorted by priority (as \<open>NewKeywordMatcher\<close>
  leaves it) and whose hardcoded categories do not match, \<open>ProcessStage\<close> takes the
  groups of equal priority value in ascending order of the value and returns the label of
  the result of \<open>findBestMatch\<close> on the first group where it yields one: a result comes
  from group \<open>k\<close> exactly when every group before \<open>k\<close> yields none. With no such
  group the version of src/stage_processing.go returns \<^verbatim>\<open>unknown\<close>.
\<close>

theorem priority_groups_in_order:
  assumes "stageMap km stage = Some stageData"
    and "sorted (map (\<lambda>c. Priority (Info c)) (Prioritized stageData))"
    and "\<forall>c\<in>set (Hardcoded stageData). findBestMatch U km tx [c] = None"
  shows "ProcessStage U km tx stage =
           (case first_group_match U km tx (groups_by_priority (Prioritized stageData)) of
              Some r \<Rightarrow> returnValue r
            | None \<Rightarrow> S ''unknown'')
       \<and> (\<forall>r. first_group_match U km tx (groups_by_priority (Prioritized stageData)) = Some r \<longrightarrow>
              ProcessStage_special U km tx stage = returnValue r)
       \<and> (\<forall>r. first_group_match U km tx (groups_by_priority (Prioritized stageData)) = Some r \<longleftrightarrow>
             (\<exists>k<length (groups_by_priority (Prioritized stageData)).
                findBestMatch U km tx (groups_by_priority (Prioritized stageData) ! k) = Some r \<and>
                (\<forall>j<k. findBestMatch U km tx
                         (groups_by_priority (Prioritized stageData) ! j) = None)))"
proof -
  have hard: "(if Hardcoded stageData \<noteq> []
               then findBestMatch U km tx (Hardcoded stageData) else None) = None"
    using assms(3) findBestMatch_None_iff[of U km tx "Hardcoded stageData"] by simp
  have loop: "prioritized_loop U km tx (- 1) [] (Prioritized stageData) =
      map_option returnValue
        (first_group_match U km tx (groups_by_priority (Prioritized stageData)))"
    using prioritized_loop_start[of U km tx "- 1" "Prioritized stageData"]
      priority_groups_sorted[OF assms(2)] by simp
  have "ProcessStage U km tx stage =
           (case first_group_match U km tx (groups_by_priority (Prioritized stageData)) of
              Some r \<Rightarrow> returnValue r
            | None \<Rightarrow> S ''unknown'')"
    unfolding ProcessStage_def using assms(1) hard loop by (simp split: option.splits)
  moreover have "\<forall>r. first_group_match U km tx (groups_by_priority (Prioritized stageData)) = Some r
      \<longrightarrow> ProcessStage_special U km tx stage = returnValue r"
    unfolding ProcessStage_special_def Let_def using assms(1) hard loop by simp
  ultimately show ?thesis using first_group_match_Some_iff by blast
qed


lemma normalize_interested:
  "normalizeText ascii_lib empty_matcher (S ''interested do not call'') = S ''interested do not call''"
  by (simp add: normalizeText_def empty_matcher_def ascii_lib_def string_eval)

lemma Fields_interested:
  "Fields (S ''interested do not call'') = [S ''interested'', S ''do'', S ''not'', S ''call'']"
  by (simp add: string_eval)

lemma tokenize_interested:
  "tokenize (S ''interested do not call'') =
    [S ''interested'', S ''do'', S ''not'', S ''call'', S ''interested do'', S ''do not'',
     S ''not call'', S ''interested do not'', S ''do not call'', S ''interested do not call'']"
  unfolding tokenize_eq Fields_interested
  by (simp add: ngrams_def S_def upt_rec numeral_2_eq_2 numeral_3_eq_3 eval_nat_numeral)

lemma no_match_test_call:
  "\<not> MatchString (WordBoundary # map Lit (S ''test call'') @ [WordBoundary])
     (S ''interested do not call'')"
  by (simp add: MatchString_def S_def upt_rec word_boundary_def isWordChar_def)

lemma match_do_not_call_interested:
  "MatchString (WordBoundary # map Lit (S ''do not call'') @ [WordBoundary])
     (S ''interested do not call'')"
  by (simp add: MatchString_def S_def upt_rec word_boundary_def isWordChar_def)

lemma match_interested:
  "MatchString (WordBoundary # map Lit (S ''interested'') @ [WordBoundary])
     (S ''interested do not call'')"
  by (simp add: MatchString_def S_def upt_rec word_boundary_def isWordChar_def)

theorem priority_groups_in_order_witness:
  "stageMap example_matcher (S ''s3'') = Some example_stage
   \<and> sorted (map (\<lambda>c. Priority (Info c)) (Prioritized example_stage))
   \<and> Hardcoded example_stage = [honeypot_bucket]
   \<and> findBestMatch ascii_lib example_matcher (S ''interested do not call'') [honeypot_bucket]
        = None
   \<and> Prioritized example_stage = [example_bucket, interested_bucket]
   \<and> Priority (Info example_bucket) = 1 \<and> Priority (Info interested_bucket) = 2
   \<and> findBestMatch ascii_lib example_matcher (S ''interested do not call'') [example_bucket]
        \<noteq> None
   \<and> findBestMatch ascii_lib example_matcher (S ''interested do not call'') [interested_bucket]
        \<noteq> None
   \<and> ProcessStage ascii_lib example_matcher (S ''interested do not call'') (S ''s3'') =
        ReturnValue (Info example_bucket)
   \<and> ProcessStage_special ascii_lib example_matcher (S ''interested do not call'') (S ''s3'') =
        ReturnValue (Info example_bucket)"
proof -
  let ?t = "S ''interested do not call''"
  have n: "normalizeText ascii_lib example_matcher ?t = ?t"
    using normalizeText_contractions[OF example_matcher_contractions] normalize_interested
    by simp
  have sm: "stageMap example_matcher (S ''s3'') = Some example_stage"
    by (simp add: example_matcher_def)
  have so: "sorted (map (\<lambda>c. Priority (Info c)) (Prioritized example_stage))"
    by (simp add: example_stage_def example_bucket_def interested_bucket_def)
  have hp: "findBestMatch ascii_lib example_matcher ?t [honeypot_bucket] = None"
    by (rule findBestMatch_no_candidate)
      (simp add: n honeypot_bucket_def tokenize_interested no_match_test_call, simp add: S_def)
  have hs: "Hardcoded example_stage = [honeypot_bucket]" by (simp add: example_stage_def)
  have hard: "\<forall>c\<in>set (Hardcoded example_stage).
        findBestMatch ascii_lib example_matcher ?t [c] = None"
    using hp hs by simp
  have m1: "findBestMatch ascii_lib example_matcher ?t [example_bucket] \<noteq> None"
    by (rule findBestMatch_substring[where c = example_bucket
          and entry = "Keywords example_bucket ! 1"])
      (simp_all add: n example_bucket_def match_do_not_call_interested)
  have m2: "findBestMatch ascii_lib example_matcher ?t [interested_bucket] \<noteq> None"
    by (rule findBestMatch_substring[where c = interested_bucket
          and entry = "hd (Keywords interested_bucket)"])
      (simp_all add: n interested_bucket_def match_interested)
  have groups: "groups_by_priority (Prioritized example_stage) =
      [[example_bucket], [interested_bucket]]"
    unfolding priority_groups_sorted[OF so, symmetric]
    by (simp add: example_stage_def example_bucket_def interested_bucket_def)
  from m1 obtain r :: matchResult where
    r: "findBestMatch ascii_lib example_matcher ?t [example_bucket] = Some r" by auto
  from findBestMatch_label[OF r] have lab: "returnValue r = ReturnValue (Info example_bucket)"
    by simp
  have fg: "first_group_match ascii_lib example_matcher ?t
      (groups_by_priority (Prioritized example_stage)) = Some r"
    unfolding groups using r by simp
  note T = priority_groups_in_order[OF sm so hard]
  have "ProcessStage ascii_lib example_matcher ?t (S ''s3'') = ReturnValue (Info example_bucket)"
    using T[THEN conjunct1] fg lab by simp
  moreover have "ProcessStage_special ascii_lib example_matcher ?t (S ''s3'') =
      ReturnValue (Info example_bucket)"
    using T[THEN conjunct2, THEN conjunct1, rule_format, OF fg] lab by simp
  moreover have "Prioritized example_stage = [example_bucket, interested_bucket]"
    "Priority (Info example_bucket) = 1" "Priority (Info interested_bucket) = 2"
    by (simp_all add: example_stage_def example_bucket_def interested_bucket_def)
  ultimately show ?thesis using sm so hp hs m1 m2 by simp
qed

lemma find_first:
  "(\<forall>d\<in>set before. \<not> P d) \<Longrightarrow> P c \<Longrightarrow> find P (before @ c # after) = Some c"
  by (induction before) auto

lemma normalize_no_thanks:
  "normalizeText ascii_lib empty_matcher (S ''No  thanks'') = S ''no thanks''"
  by (simp add: normalizeText_def empty_matcher_def ascii_lib_def string_eval)

text \<open>
  C9 (as amended). For the stages \<^verbatim>\<open>s3\<close> and \<^verbatim>\<open>s4\<close>, when no hardcoded and no
  prioritized category matches and the normalized text is \<^verbatim>\<open>no\<close> or begins with
  \<^verbatim>\<open>no \<close>: the version of \<open>ProcessStage\<close> that has the special case
  (src/unnamed/part_001) returns the label of the first category of the prioritized list
  of the stage whose base name is \<^verbatim>\<open>dnq\<close>, and \<^verbatim>\<open>UNKNOWN_\<close> followed by the stage when
  the list has none; the version of src/stage_processing.go has no such case and returns
  \<^verbatim>\<open>unknown\<close>.
\<close>

theorem dnq_fallback:
  assumes "stageMap km stage = Some stageData"
    and "stage = S ''s3'' \<or> stage = S ''s4''"
    and "\<forall>c\<in>set (Hardcoded stageData) \<union> set (Prioritized stageData).
           findBestMatch U km tx [c] = None"
    and "normalizeText U km tx = S ''no'' \<or> HasPrefix (normalizeText U km tx) (S ''no '')"
  shows "ProcessStage_special U km tx stage =
           (case find (\<lambda>c. BaseName (Info c) = S ''dnq'') (Prioritized stageData) of
              Some c \<Rightarrow> ReturnValue (Info c)
            | None \<Rightarrow> S ''UNKNOWN_'' @ stage)
       \<and> (\<forall>before c after.
            Prioritized stageData = before @ c # after \<and> BaseName (Info c) = S ''dnq'' \<and>
            (\<forall>d\<in>set before. BaseName (Info d) \<noteq> S ''dnq'')
            \<longrightarrow> ProcessStage_special U km tx stage = ReturnValue (Info c))
       \<and> ((\<forall>c\<in>set (Prioritized stageData). BaseName (Info c) \<noteq> S ''dnq'') \<longrightarrow>
            ProcessStage_special U km tx stage = S ''UNKNOWN_'' @ stage)
       \<and> ProcessStage U km tx stage = S ''unknown''"
proof -
  let ?dnq = "\<lambda>c. BaseName (Info c) = S ''dnq''"
  have hard: "(if Hardcoded stageData \<noteq> []
               then findBestMatch U km tx (Hardcoded stageData) else None) = None"
    using assms(3) findBestMatch_None_iff[of U km tx "Hardcoded stageData"] by simp
  have "\<forall>g\<in>set (priority_groups (Prioritized stageData)). findBestMatch U km tx g = None"
  proof
    fix g assume "g \<in> set (priority_groups (Prioritized stageData))"
    then have "set g \<subseteq> set (Prioritized stageData)" by (rule priority_groups_subset)
    with assms(3) show "findBestMatch U km tx g = None"
      using findBestMatch_None_iff[of U km tx g] by auto
  qed
  then have loop: "prioritized_loop U km tx (- 1) [] (Prioritized stageData) = None"
    using prioritized_loop_start[of U km tx "- 1" "Prioritized stageData"]
    by (simp add: first_group_match_None)
  have eq: "ProcessStage_special U km tx stage =
      (case find ?dnq (Prioritized stageData) of
         Some catEntry \<Rightarrow> ReturnValue (Info catEntry)
       | None \<Rightarrow> S ''UNKNOWN_'' @ stage)"
    unfolding ProcessStage_special_def Let_def using assms(1,2,4) hard loop by simp
  have first: "ProcessStage_special U km tx stage = ReturnValue (Info c)"
    if "Prioritized stageData = before @ c # after \<and> BaseName (Info c) = S ''dnq'' \<and>
        (\<forall>d\<in>set before. BaseName (Info d) \<noteq> S ''dnq'')" for before c after
  proof -
    from that have "find ?dnq (before @ c # after) = Some c"
      by (intro find_first) auto
    with that show ?thesis unfolding eq by simp
  qed
  have none: "ProcessStage_special U km tx stage = S ''UNKNOWN_'' @ stage"
    if "\<forall>c\<in>set (Prioritized stageData). BaseName (Info c) \<noteq> S ''dnq''"
  proof -
    from that have "find ?dnq (Prioritized stageData) = None" by (simp add: find_None_iff)
    with eq show ?thesis by simp
  qed
  have plain: "ProcessStage U km tx stage = S ''unknown''"
    unfolding ProcessStage_def using assms(1) hard loop by simp
  from eq first none plain show ?thesis by blast
qed


lemma NewKeywordMatcher_example:
  "NewKeywordMatcher U srt 0 cfg [] = map_option (sort_stages srt) (load_categories U empty_matcher cfg)"
  by (simp add: NewKeywordMatcher_def empty_matcher_def)

lemma parse_dnq:
  "parseCategoryName ascii_lib (S ''dnq_p5_s3'') =
     Some \<lparr>BaseName = S ''dnq'', Priority = 5, Stage = S ''s3'', IsHardcoded = False,
           ReturnValue = S ''DNQ''\<rparr>"
  by (simp add: parseCategoryName_def S_def HasPrefix_def Sscanf_p_d_def ParseInt_def decimal_def
      isDigit_def IsSpace_def generateReturnValue_def Let_def)

lemma normalize_not_qualified:
  "normalizeText ascii_lib empty_matcher (S ''not qualified'') = S ''not qualified''"
  by (simp add: normalizeText_def empty_matcher_def ascii_lib_def string_eval)

lemma prepare_not_qualified:
  "prepareKeywordEntries ascii_lib empty_matcher [S ''not qualified''] =
    Some [\<lparr>raw = S ''not qualified'',
            regex = WordBoundary # map Lit (S ''not qualified'') @ [WordBoundary]\<rparr>]"
  by (simp add: normalize_not_qualified) (simp add: S_def QuoteMeta_def special_def)

lemma scenario_C_km:
  "\<exists>km. scenario_C = Some km \<and>
     stageMap km (S ''s3'') = Some \<lparr>Hardcoded = [], Prioritized = [dnq_bucket]\<rparr> \<and>
     contractions km = contractions empty_matcher"
  unfolding scenario_C_def NewKeywordMatcher_example
  by (simp add: parse_dnq convertToStringSlice_def prepare_not_qualified Let_def sort_stages_def
        insertionSort_def dnq_bucket_def add_category_def del: prepareKeywordEntries.simps)
     (simp add: empty_matcher_def)

lemma normalize_no: "normalizeText ascii_lib empty_matcher (S ''no'') = S ''no''"
  by (simp add: normalizeText_def empty_matcher_def ascii_lib_def string_eval)

lemma tokenize_no: "tokenize (S ''no'') = [S ''no'']"
proof -
  have "Fields (S ''no'') = [S ''no'']" by (simp add: string_eval)
  then show ?thesis unfolding tokenize_eq by (simp add: ngrams_def)
qed

lemma no_match_not_qualified:
  "\<not> MatchString (WordBoundary # map Lit (S ''not qualified'') @ [WordBoundary]) (S ''no'')"
  by (simp add: MatchString_def S_def upt_rec word_boundary_def isWordChar_def)

lemma scenario_C_facts:
  assumes "scenario_C = Some km"
  shows "stageMap km (S ''s3'') = Some \<lparr>Hardcoded = [], Prioritized = [dnq_bucket]\<rparr>"
    and "normalizeText ascii_lib km (S ''no'') = S ''no''"
    and "findBestMatch ascii_lib km (S ''no'') [dnq_bucket] = None"
proof -
  from scenario_C_km obtain km' where km': "scenario_C = Some km'"
    "stageMap km' (S ''s3'') = Some \<lparr>Hardcoded = [], Prioritized = [dnq_bucket]\<rparr>"
    "contractions km' = contractions empty_matcher" by auto
  from km'(1) have "km' = km" unfolding assms by simp
  with km' have
    sm: "stageMap km (S ''s3'') = Some \<lparr>Hardcoded = [], Prioritized = [dnq_bucket]\<rparr>"
    and c: "contractions km = contractions empty_matcher" by simp_all
  show "stageMap km (S ''s3'') = Some \<lparr>Hardcoded = [], Prioritized = [dnq_bucket]\<rparr>" by (rule sm)
  show n: "normalizeText ascii_lib km (S ''no'') = S ''no''"
    using normalizeText_contractions[OF c] normalize_no by simp
  show "findBestMatch ascii_lib km (S ''no'') [dnq_bucket] = None"
    by (rule findBestMatch_no_candidate)
      (simp add: n dnq_bucket_def tokenize_no no_match_not_qualified, simp add: S_def)
qed

lemma two_dnq_facts:
  "stageMap two_dnq_matcher (S ''s4'') = Some two_dnq_stage"
  "normalizeText ascii_lib two_dnq_matcher (S ''No  thanks'') = S ''no thanks''"
  "HasPrefix (S ''no thanks'') (S ''no '')"
  "\<forall>c\<in>set (Hardcoded two_dnq_stage) \<union> set (Prioritized two_dnq_stage).
     findBestMatch ascii_lib two_dnq_matcher (S ''No  thanks'') [c] = None"
proof -
  show "stageMap two_dnq_matcher (S ''s4'') = Some two_dnq_stage"
    by (simp add: two_dnq_matcher_def)
  have "contractions two_dnq_matcher = contractions empty_matcher"
    by (simp add: two_dnq_matcher_def)
  from normalizeText_contractions[OF this, of ascii_lib "S ''No  thanks''"]
  show "normalizeText ascii_lib two_dnq_matcher (S ''No  thanks'') = S ''no thanks''"
    unfolding normalize_no_thanks .
  show "HasPrefix (S ''no thanks'') (S ''no '')" by (simp add: HasPrefix_def S_def)
  show "\<forall>c\<in>set (Hardcoded two_dnq_stage) \<union> set (Prioritized two_dnq_stage).
     findBestMatch ascii_lib two_dnq_matcher (S ''No  thanks'') [c] = None"
  proof
    fix c assume "c \<in> set (Hardcoded two_dnq_stage) \<union> set (Prioritized two_dnq_stage)"
    then have "Keywords c = []" by (auto simp: two_dnq_stage_def)
    then show "findBestMatch ascii_lib two_dnq_matcher (S ''No  thanks'') [c] = None"
      by (intro findBestMatch_no_candidate) simp
  qed
qed

theorem dnq_fallback_witness:
  "(\<exists>km stageData. scenario_C = Some km \<and> stageMap km (S ''s3'') = Some stageData
     \<and> (\<forall>c\<in>set (Hardcoded stageData) \<union> set (Prioritized stageData).
           findBestMatch ascii_lib km (S ''no'') [c] = None)
     \<and> normalizeText ascii_lib km (S ''no'') = S ''no''
     \<and> (\<exists>c\<in>set (Prioritized stageData). BaseName (Info c) = S ''dnq'')
     \<and> ProcessStage_special ascii_lib km (S ''no'') (S ''s3'') = S ''DNQ''
     \<and> ProcessStage ascii_lib km (S ''no'') (S ''s3'') = S ''unknown'')
   \<and> stageMap two_dnq_matcher (S ''s4'') = Some two_dnq_stage
   \<and> map (\<lambda>c. (BaseName (Info c), ReturnValue (Info c))) (Prioritized two_dnq_stage) =
       [(S ''busy'', S ''BUSY''), (S ''dnq'', S ''FIRST''), (S ''dnq'', S ''SECOND'')]
   \<and> normalizeText ascii_lib two_dnq_matcher (S ''No  thanks'') = S ''no thanks''
   \<and> ProcessStage_special ascii_lib two_dnq_matcher (S ''No  thanks'') (S ''s4'') = S ''FIRST''
   \<and> ProcessStage ascii_lib two_dnq_matcher (S ''No  thanks'') (S ''s4'') = S ''unknown''"
proof -
  from scenario_C_km obtain km where km: "scenario_C = Some km" by auto
  let ?sd = "\<lparr>Hardcoded = [], Prioritized = [dnq_bucket]\<rparr>"
  note f = scenario_C_facts[OF km]
  have none: "\<forall>c\<in>set (Hardcoded ?sd) \<union> set (Prioritized ?sd).
      findBestMatch ascii_lib km (S ''no'') [c] = None"
    using f(3) by simp
  have no: "normalizeText ascii_lib km (S ''no'') = S ''no'' \<or>
      HasPrefix (normalizeText ascii_lib km (S ''no'')) (S ''no '')"
    using f(2) by simp
  have dnq: "\<exists>c\<in>set (Prioritized ?sd). BaseName (Info c) = S ''dnq''"
    by (simp add: dnq_bucket_def)
  note T = dnq_fallback[OF f(1) _ none no]
  have d: "Prioritized ?sd = [] @ dnq_bucket # [] \<and> BaseName (Info dnq_bucket) = S ''dnq'' \<and>
      (\<forall>d\<in>set []. BaseName (Info d) \<noteq> S ''dnq'')"
    by (simp add: dnq_bucket_def)
  from T[THEN conjunct2, THEN conjunct1, rule_format, OF _ d]
  have 1: "ProcessStage_special ascii_lib km (S ''no'') (S ''s3'') = S ''DNQ''"
    by (simp add: dnq_bucket_def)
  from T[THEN conjunct2, THEN conjunct2, THEN conjunct2]
  have 2: "ProcessStage ascii_lib km (S ''no'') (S ''s3'') = S ''unknown''" by simp
  have A: "\<exists>km stageData. scenario_C = Some km \<and> stageMap km (S ''s3'') = Some stageData
     \<and> (\<forall>c\<in>set (Hardcoded stageData) \<union> set (Prioritized stageData).
           findBestMatch ascii_lib km (S ''no'') [c] = None)
     \<and> normalizeText ascii_lib km (S ''no'') = S ''no''
     \<and> (\<exists>c\<in>set (Prioritized stageData). BaseName (Info c) = S ''dnq'')
     \<and> ProcessStage_special ascii_lib km (S ''no'') (S ''s3'') = S ''DNQ''
     \<and> ProcessStage ascii_lib km (S ''no'') (S ''s3'') = S ''unknown''"
    using km f(1,2) none dnq 1 2 by (intro exI[of _ km] exI[of _ ?sd] conjI)
  let ?first = "\<lparr>Info = \<lparr>BaseName = S ''dnq'', Priority = 2, Stage = S ''s4'', IsHardcoded = False,
                  ReturnValue = S ''FIRST''\<rparr>, Keywords = []\<rparr>"
  have no2: "normalizeText ascii_lib two_dnq_matcher (S ''No  thanks'') = S ''no'' \<or>
      HasPrefix (normalizeText ascii_lib two_dnq_matcher (S ''No  thanks'')) (S ''no '')"
    using two_dnq_facts(2,3) by simp
  note T2 = dnq_fallback[OF two_dnq_facts(1) _ two_dnq_facts(4) no2]
  have d2: "Prioritized two_dnq_stage =
      [\<lparr>Info = \<lparr>BaseName = S ''busy'', Priority = 1, Stage = S ''s4'', IsHardcoded = False,
                  ReturnValue = S ''BUSY''\<rparr>, Keywords = []\<rparr>] @ ?first #
      [\<lparr>Info = \<lparr>BaseName = S ''dnq'', Priority = 3, Stage = S ''s4'', IsHardcoded = False,
                  ReturnValue = S ''SECOND''\<rparr>, Keywords = []\<rparr>] \<and>
      BaseName (Info ?first) = S ''dnq'' \<and>
      (\<forall>d\<in>set [\<lparr>Info = \<lparr>BaseName = S ''busy'', Priority = 1, Stage = S ''s4'', IsHardcoded = False,
                  ReturnValue = S ''BUSY''\<rparr>, Keywords = []\<rparr>]. BaseName (Info d) \<noteq> S ''dnq'')"
    by (simp add: two_dnq_stage_def S_def)
  from T2[THEN conjunct2, THEN conjunct1, rule_format, OF _ d2]
  have 3: "ProcessStage_special ascii_lib two_dnq_matcher (S ''No  thanks'') (S ''s4'') = S ''FIRST''"
    by simp
  from T2[THEN conjunct2, THEN conjunct2, THEN conjunct2]
  have 4: "ProcessStage ascii_lib two_dnq_matcher (S ''No  thanks'') (S ''s4'') = S ''unknown''"
    by simp
  have 5: "map (\<lambda>c. (BaseName (Info c), ReturnValue (Info c))) (Prioritized two_dnq_stage) =
       [(S ''busy'', S ''BUSY''), (S ''dnq'', S ''FIRST''), (S ''dnq'', S ''SECOND'')]"
    by (simp add: two_dnq_stage_def)
  from A two_dnq_facts(1) 5 two_dnq_facts(2) 3 4 show ?thesis by (intro conjI)
qed

text \<open>The version of src/stage_processing.go on scenario C of the specification.\<close>

theorem ProcessStage_dnq_counterexample:
  "scenario_C \<noteq> None
   \<and> map BaseName (map Info (Prioritized (the (stageMap (the scenario_C) (S ''s3''))))) = [S ''dnq'']
   \<and> Hardcoded (the (stageMap (the scenario_C) (S ''s3''))) = []
   \<and> findBestMatch ascii_lib (the scenario_C) (S ''no'')
        (Prioritized (the (stageMap (the scenario_C) (S ''s3'')))) = None
   \<and> normalizeText ascii_lib (the scenario_C) (S ''no'') = S ''no''
   \<and> ProcessStage ascii_lib (the scenario_C) (S ''no'') (S ''s3'') = S ''unknown''
   \<and> map ReturnValue (map Info (Prioritized (the (stageMap (the scenario_C) (S ''s3''))))) =
        [S ''DNQ'']"
proof -
  from scenario_C_km obtain km where km: "scenario_C = Some km" by auto
  note f = scenario_C_facts[OF km]
  have "ProcessStage ascii_lib km (S ''no'') (S ''s3'') = S ''unknown''"
    unfolding ProcessStage_def using f by simp
  with f show ?thesis unfolding km by (simp add: dnq_bucket_def)
qed


section \<open>Parsing category keys\<close>



lemma Join_Cons: "ps \<noteq> [] \<Longrightarrow> Join (p # ps) sep = p @ sep @ Join ps sep"
  by (cases ps) auto



lemma Sscanf_p_d_digits:
  assumes "ds \<noteq> []" "list_all isDigit ds" "decimal ds < 2 ^ 63"
  shows "Sscanf_p_d (0x70 # ds) = Some (decimal ds)"
proof -
  from assms obtain d ds' where ds: "ds = d # ds'" by (cases ds) auto
  with assms have d: "isDigit d" by simp
  then have nsp: "d \<noteq> 10" "\<not> IsSpace d" "d \<noteq> 0x2B" "d \<noteq> 0x2D"
    by (auto simp: isDigit_def IsSpace_def)
  then have skip: "SkipSpace ds = Some ds" by (simp add: ds)
  have tw: "takeWhile (\<lambda>r. isDigit r \<or> r = 0x5F) ds = ds"
    using assms(2) by (simp add: takeWhile_eq_all_conv list_all_iff)
  have "ParseInt ds = Some (decimal ds)"
    using assms nsp by (simp add: ParseInt_def ds Let_def)
  then show ?thesis
    using skip tw nsp assms(1) by (simp add: Sscanf_p_d_def Let_def ds)
qed



















section \<open>Building the matcher\<close>

lemma not_special_b: "\<not> special 98"
  by (simp add: special_def S_def)

lemma special_backslash: "special 92"
  by (simp add: special_def)

lemma Compile_plain: "\<not> special r \<Longrightarrow> Compile (r # X) = map_option ((#) (Lit r)) (Compile X)"
  using special_backslash by (cases X) auto

lemma Compile_escaped: "special r \<Longrightarrow> Compile (92 # r # X) = map_option ((#) (Lit r)) (Compile X)"
  using not_special_b by auto

lemma Compile_QuoteMeta: "Compile (QuoteMeta s @ t) = map_option ((@) (map Lit s)) (Compile t)"
proof (induction s)
  case Nil
  show ?case by (simp add: QuoteMeta_def option.map_ident)
next
  case (Cons r s)
  have q: "QuoteMeta (r # s) = (if special r then [92, r] else [r]) @ QuoteMeta s"
    by (simp add: QuoteMeta_def)
  show ?case
  proof (cases "special r")
    case True
    then show ?thesis using Cons Compile_escaped[OF True, of "QuoteMeta s @ t"]
      by (simp add: q option.map_comp comp_def)
  next
    case False
    then show ?thesis using Cons Compile_plain[OF False, of "QuoteMeta s @ t"]
      by (simp add: q option.map_comp comp_def)
  qed
qed

lemma Compile_pattern:
  "Compile ([92, 98] @ QuoteMeta s @ [92, 98]) = Some (WordBoundary # map Lit s @ [WordBoundary])"
proof -
  have "Compile ([92, 98] @ QuoteMeta s @ [92, 98]) =
      map_option ((#) WordBoundary) (Compile (QuoteMeta s @ [92, 98]))"
    by simp
  also have "Compile (QuoteMeta s @ [92, 98]) = map_option ((@) (map Lit s)) (Compile [92, 98])"
    by (rule Compile_QuoteMeta)
  also have "Compile [92, 98] = Some [WordBoundary]" by simp
  finally show ?thesis by simp
qed

lemma prepareKeywordEntries_eq:
  assumes "contractions km = map_of contraction_list"
  shows "prepareKeywordEntries U km kws = Some (keyword_entries U kws)"
proof -
  have n: "normalizeText U km kw = normalizeText U empty_matcher kw" for kw
    by (rule normalizeText_contractions) (simp add: assms empty_matcher_def)
  show ?thesis
  proof (induction kws)
    case Nil
    show ?case by (simp add: keyword_entries_def)
  next
    case (Cons kw kws)
    then show ?case
      using Compile_pattern[of "normalizeText U empty_matcher kw"]
      by (simp add: keyword_entries_def n Let_def del: Compile.simps)
  qed
qed

lemma add_category_contractions: "contractions (add_category km info entries) = contractions km"
  by (simp add: add_category_def Let_def)

lemma add_category_fields:
  "loadedAt (add_category km info entries) = loadedAt km"
  "filePath (add_category km info entries) = filePath km"
  by (simp_all add: add_category_def Let_def)

lemma add_category_stageMap:
  "stageMap (add_category km info entries) stage =
     (if stage = Stage info
      then Some \<lparr>Hardcoded = (case stageMap km stage of None \<Rightarrow> [] | Some sd \<Rightarrow> Hardcoded sd) @
                   (if IsHardcoded info then [\<lparr>Info = info, Keywords = entries\<rparr>] else []),
                 Prioritized = (case stageMap km stage of None \<Rightarrow> [] | Some sd \<Rightarrow> Prioritized sd) @
                   (if IsHardcoded info then [] else [\<lparr>Info = info, Keywords = entries\<rparr>])\<rparr>
      else stageMap km stage)"
  by (auto simp: add_category_def Let_def split: option.splits)

lemma load_categories_stageMap:
  assumes "contractions km = map_of contraction_list"
  shows "\<exists>km'. load_categories U km cfg = Some km' \<and> contractions km' = contractions km \<and>
     loadedAt km' = loadedAt km \<and> filePath km' = filePath km \<and>
     (\<forall>stage. stageMap km' stage =
        (if filter (\<lambda>c. Stage (Info c) = stage) (loaded_categories U cfg) = []
         then stageMap km stage
         else Some \<lparr>Hardcoded = (case stageMap km stage of None \<Rightarrow> [] | Some sd \<Rightarrow> Hardcoded sd) @
                      filter (\<lambda>c. IsHardcoded (Info c))
                        (filter (\<lambda>c. Stage (Info c) = stage) (loaded_categories U cfg)),
                    Prioritized = (case stageMap km stage of None \<Rightarrow> [] | Some sd \<Rightarrow> Prioritized sd) @
                      filter (\<lambda>c. \<not> IsHardcoded (Info c))
                        (filter (\<lambda>c. Stage (Info c) = stage) (loaded_categories U cfg))\<rparr>))"
  using assms
proof (induction cfg arbitrary: km)
  case Nil
  show ?case by (simp add: loaded_categories_def)
next
  case (Cons x cfg)
  obtain categoryKey v where x: "x = (categoryKey, v)" by (cases x)
  show ?case
  proof (cases "parseCategoryName U categoryKey")
    case None
    have l: "loaded_categories U (x # cfg) = loaded_categories U cfg"
      by (simp add: loaded_categories_def x None)
    have step: "load_categories U km (x # cfg) = load_categories U km cfg"
      by (simp add: x None)
    show ?thesis unfolding l step by (rule Cons.IH[OF Cons.prems])
  next
    case (Some info)
    show ?thesis
    proof (cases "convertToStringSlice v = []")
      case True
      have l: "loaded_categories U (x # cfg) = loaded_categories U cfg"
        by (simp add: loaded_categories_def x Some True)
      have step: "load_categories U km (x # cfg) = load_categories U km cfg"
        by (simp add: x Some True)
      show ?thesis unfolding l step by (rule Cons.IH[OF Cons.prems])
    next
      case False
      let ?entries = "keyword_entries U (convertToStringSlice v)"
      let ?c = "\<lparr>Info = info, Keywords = ?entries\<rparr>"
      let ?km1 = "add_category km info ?entries"
      have l: "loaded_categories U (x # cfg) = ?c # loaded_categories U cfg"
        by (simp add: loaded_categories_def x Some False)
      have step: "load_categories U km (x # cfg) = load_categories U ?km1 cfg"
        using Some False prepareKeywordEntries_eq[OF Cons.prems]
        by (simp add: x Let_def del: prepareKeywordEntries.simps)
      have c1: "contractions ?km1 = map_of contraction_list"
        using Cons.prems by (simp add: add_category_contractions)
      from Cons.IH[OF c1] obtain km' where km': "load_categories U ?km1 cfg = Some km'"
        "contractions km' = contractions ?km1" "loadedAt km' = loadedAt ?km1"
        "filePath km' = filePath ?km1"
        "\<forall>stage. stageMap km' stage =
        (if filter (\<lambda>c. Stage (Info c) = stage) (loaded_categories U cfg) = []
         then stageMap ?km1 stage
         else Some \<lparr>Hardcoded = (case stageMap ?km1 stage of None \<Rightarrow> [] | Some sd \<Rightarrow> Hardcoded sd) @
                      filter (\<lambda>c. IsHardcoded (Info c))
                        (filter (\<lambda>c. Stage (Info c) = stage) (loaded_categories U cfg)),
                    Prioritized = (case stageMap ?km1 stage of None \<Rightarrow> [] | Some sd \<Rightarrow> Prioritized sd) @
                      filter (\<lambda>c. \<not> IsHardcoded (Info c))
                        (filter (\<lambda>c. Stage (Info c) = stage) (loaded_categories U cfg))\<rparr>)"
        by blast
      have "stageMap km' stage =
        (if filter (\<lambda>c. Stage (Info c) = stage) (loaded_categories U (x # cfg)) = []
         then stageMap km stage
         else Some \<lparr>Hardcoded = (case stageMap km stage of None \<Rightarrow> [] | Some sd \<Rightarrow> Hardcoded sd) @
                      filter (\<lambda>c. IsHardcoded (Info c))
                        (filter (\<lambda>c. Stage (Info c) = stage) (loaded_categories U (x # cfg))),
                    Prioritized = (case stageMap km stage of None \<Rightarrow> [] | Some sd \<Rightarrow> Prioritized sd) @
                      filter (\<lambda>c. \<not> IsHardcoded (Info c))
                        (filter (\<lambda>c. Stage (Info c) = stage) (loaded_categories U (x # cfg)))\<rparr>)"
        for stage
        unfolding l km'(5)[rule_format] add_category_stageMap by simp
      then show ?thesis
        using km'(1-4) step by (simp add: add_category_contractions add_category_fields)
    qed
  qed
qed

lemma NewKeywordMatcher_eq:
  "\<exists>km. NewKeywordMatcher U srt now cfg path = Some km \<and>
     contractions km = map_of contraction_list \<and> loadedAt km = now \<and> filePath km = path \<and>
     (\<forall>stage. stageMap km stage =
        (if filter (\<lambda>c. Stage (Info c) = stage) (loaded_categories U cfg) = [] then None
         else Some \<lparr>Hardcoded = filter (\<lambda>c. IsHardcoded (Info c))
                        (filter (\<lambda>c. Stage (Info c) = stage) (loaded_categories U cfg)),
                    Prioritized = srt (\<lambda>a b. Priority (Info a) < Priority (Info b))
                      (filter (\<lambda>c. \<not> IsHardcoded (Info c))
                        (filter (\<lambda>c. Stage (Info c) = stage) (loaded_categories U cfg)))\<rparr>))"
proof -
  let ?km0 = "\<lparr>stageMap = Map.empty, contractions = map_of contraction_list,
                loadedAt = now, filePath = path\<rparr>"
  have "contractions ?km0 = map_of contraction_list" by simp
  from load_categories_stageMap[OF this, of U cfg] obtain km' where
    km': "load_categories U ?km0 cfg = Some km'" "contractions km' = contractions ?km0"
      "loadedAt km' = loadedAt ?km0" "filePath km' = filePath ?km0"
      "\<forall>stage. stageMap km' stage =
        (if filter (\<lambda>c. Stage (Info c) = stage) (loaded_categories U cfg) = []
         then stageMap ?km0 stage
         else Some \<lparr>Hardcoded = (case stageMap ?km0 stage of None \<Rightarrow> [] | Some sd \<Rightarrow> Hardcoded sd) @
                      filter (\<lambda>c. IsHardcoded (Info c))
                        (filter (\<lambda>c. Stage (Info c) = stage) (loaded_categories U cfg)),
                    Prioritized = (case stageMap ?km0 stage of None \<Rightarrow> [] | Some sd \<Rightarrow> Prioritized sd) @
                      filter (\<lambda>c. \<not> IsHardcoded (Info c))
                        (filter (\<lambda>c. Stage (Info c) = stage) (loaded_categories U cfg))\<rparr>)"
    by blast
  have "NewKeywordMatcher U srt now cfg path = Some (sort_stages srt km')"
    using km'(1) by (simp add: NewKeywordMatcher_def)
  moreover have "contractions (sort_stages srt km') = map_of contraction_list"
    "loadedAt (sort_stages srt km') = now" "filePath (sort_stages srt km') = path"
    using km'(2-4) by (simp_all add: sort_stages_def)
  moreover have "stageMap (sort_stages srt km') stage =
        (if filter (\<lambda>c. Stage (Info c) = stage) (loaded_categories U cfg) = [] then None
         else Some \<lparr>Hardcoded = filter (\<lambda>c. IsHardcoded (Info c))
                        (filter (\<lambda>c. Stage (Info c) = stage) (loaded_categories U cfg)),
                    Prioritized = srt (\<lambda>a b. Priority (Info a) < Priority (Info b))
                      (filter (\<lambda>c. \<not> IsHardcoded (Info c))
                        (filter (\<lambda>c. Stage (Info c) = stage) (loaded_categories U cfg)))\<rparr>)" for stage
    using km'(5)[rule_format, of stage] by (simp add: sort_stages_def)
  ultimately show ?thesis by blast
qed


lemma mset_insert_sorted: "mset (insert_sorted lt x ys) = add_mset x (mset ys)"
  by (induction ys) auto

lemma sorted_insert_sorted:
  "sorted (map f ys) \<Longrightarrow> sorted (map f (insert_sorted (\<lambda>a b. f a < f b) x ys))"
proof (induction ys)
  case Nil
  show ?case by simp
next
  case (Cons y ys)
  have "set (insert_sorted (\<lambda>a b. f a < f b) x ys) = insert x (set ys)"
    using mset_insert_sorted[of "\<lambda>a b. f a < f b" x ys, THEN arg_cong, of set_mset] by simp
  with Cons show ?case by (auto simp: not_less)
qed

lemma insertionSort_contract: "sort_contract insertionSort"
proof -
  let ?lt = "\<lambda>a b. Priority (Info a) < Priority (Info b)"
  let ?f = "\<lambda>c. Priority (Info c)"
  have "mset (foldl (\<lambda>acc x. insert_sorted ?lt x acc) acc xs) = mset acc + mset xs \<and>
        (sorted (map ?f acc) \<longrightarrow> sorted (map ?f (foldl (\<lambda>acc x. insert_sorted ?lt x acc) acc xs)))"
    for acc xs
  proof (induction xs arbitrary: acc)
    case Nil
    show ?case by simp
  next
    case (Cons x xs)
    show ?case
      using Cons[of "insert_sorted ?lt x acc"] sorted_insert_sorted[of ?f acc x]
      by (simp add: mset_insert_sorted)
  qed
  from this[of "[]"] show ?thesis by (simp add: sort_contract_def insertionSort_def)
qed

text \<open>
  C7 (as amended). Given a \<^verbatim>\<open>sort.Slice\<close> that returns a sorted permutation, which is
  what its documentation promises, \<open>NewKeywordMatcher\<close> returns a matcher, and in it
  every stage's prioritized list is sorted ascending by priority and holds exactly the
  categories loaded for the stage that are not hardcoded. The order of two categories of
  equal priority is not fixed by the configuration: the categories are appended in the
  order in which the loop visits the Go map, and \<^verbatim>\<open>sort.Slice\<close> is not a stable sort.
\<close>

theorem NewKeywordMatcher_sorted:
  assumes "sort_contract sort_Slice"
  shows "\<exists>km. NewKeywordMatcher U sort_Slice now cfg path = Some km \<and>
     (\<forall>stage stageData. stageMap km stage = Some stageData \<longrightarrow>
        sorted (map (\<lambda>c. Priority (Info c)) (Prioritized stageData)) \<and>
        mset (Prioritized stageData) =
          mset (filter (\<lambda>c. Stage (Info c) = stage \<and> \<not> IsHardcoded (Info c))
                  (loaded_categories U cfg)))"
proof -
  from NewKeywordMatcher_eq[of U sort_Slice now cfg path] obtain km where
    km: "NewKeywordMatcher U sort_Slice now cfg path = Some km"
    and sm: "\<forall>stage. stageMap km stage =
        (if filter (\<lambda>c. Stage (Info c) = stage) (loaded_categories U cfg) = [] then None
         else Some \<lparr>Hardcoded = filter (\<lambda>c. IsHardcoded (Info c))
                        (filter (\<lambda>c. Stage (Info c) = stage) (loaded_categories U cfg)),
                    Prioritized = sort_Slice (\<lambda>a b. Priority (Info a) < Priority (Info b))
                      (filter (\<lambda>c. \<not> IsHardcoded (Info c))
                        (filter (\<lambda>c. Stage (Info c) = stage) (loaded_categories U cfg)))\<rparr>)"
    by blast
  have "sorted (map (\<lambda>c. Priority (Info c)) (Prioritized stageData)) \<and>
        mset (Prioritized stageData) =
          mset (filter (\<lambda>c. Stage (Info c) = stage \<and> \<not> IsHardcoded (Info c))
                  (loaded_categories U cfg))"
    if "stageMap km stage = Some stageData" for stage stageData
  proof -
    from that sm[rule_format, of stage] have
      "Prioritized stageData = sort_Slice (\<lambda>a b. Priority (Info a) < Priority (Info b))
          (filter (\<lambda>c. \<not> IsHardcoded (Info c))
            (filter (\<lambda>c. Stage (Info c) = stage) (loaded_categories U cfg)))"
      by (auto split: if_splits)
    moreover have "filter (\<lambda>c. \<not> IsHardcoded (Info c))
            (filter (\<lambda>c. Stage (Info c) = stage) (loaded_categories U cfg)) =
          filter (\<lambda>c. Stage (Info c) = stage \<and> \<not> IsHardcoded (Info c)) (loaded_categories U cfg)"
      by (simp add: conj_commute)
    ultimately show ?thesis using assms by (simp add: sort_contract_def)
  qed
  with km show ?thesis by blast
qed

lemma parse_a: "parseCategoryName ascii_lib (S ''a_p1_s1'') =
     Some \<lparr>BaseName = S ''a'', Priority = 1, Stage = S ''s1'', IsHardcoded = False,
           ReturnValue = S ''A''\<rparr>"
  by (simp add: parseCategoryName_def S_def HasPrefix_def Sscanf_p_d_def ParseInt_def decimal_def
      isDigit_def IsSpace_def generateReturnValue_def Let_def ToUpper_def unicode_ToUpper_def)

lemma parse_b: "parseCategoryName ascii_lib (S ''b_p1_s1'') =
     Some \<lparr>BaseName = S ''b'', Priority = 1, Stage = S ''s1'', IsHardcoded = False,
           ReturnValue = S ''B''\<rparr>"
  by (simp add: parseCategoryName_def S_def HasPrefix_def Sscanf_p_d_def ParseInt_def decimal_def
      isDigit_def IsSpace_def generateReturnValue_def Let_def ToUpper_def unicode_ToUpper_def)

lemma normalize_x_y:
  "normalizeText ascii_lib empty_matcher (S ''x'') = S ''x''"
  "normalizeText ascii_lib empty_matcher (S ''y'') = S ''y''"
  by (simp_all add: normalizeText_def empty_matcher_def ascii_lib_def string_eval)

lemma loaded_ab:
  "map (\<lambda>c. (BaseName (Info c), Priority (Info c), Stage (Info c), IsHardcoded (Info c)))
     (loaded_categories ascii_lib config_ab) =
   [(S ''a'', 1, S ''s1'', False), (S ''b'', 1, S ''s1'', False)]"
  by (simp add: loaded_categories_def config_ab_def parse_a parse_b convertToStringSlice_def)

lemma loaded_ba:
  "map (\<lambda>c. (BaseName (Info c), Priority (Info c), Stage (Info c), IsHardcoded (Info c)))
     (loaded_categories ascii_lib config_ba) =
   [(S ''b'', 1, S ''s1'', False), (S ''a'', 1, S ''s1'', False)]"
  by (simp add: loaded_categories_def config_ba_def parse_a parse_b convertToStringSlice_def)

lemma stage_ab:
  "\<exists>km sd. NewKeywordMatcher ascii_lib insertionSort 0 config_ab [] = Some km \<and>
     stageMap km (S ''s1'') = Some sd \<and>
     map (\<lambda>c. (BaseName (Info c), Priority (Info c))) (Prioritized sd) =
       [(S ''a'', 1), (S ''b'', 1)]"
proof -
  from NewKeywordMatcher_eq[of ascii_lib insertionSort 0 config_ab "[]"] obtain km where
    km: "NewKeywordMatcher ascii_lib insertionSort 0 config_ab [] = Some km"
    and sm: "\<forall>stage. stageMap km stage =
        (if filter (\<lambda>c. Stage (Info c) = stage) (loaded_categories ascii_lib config_ab) = [] then None
         else Some \<lparr>Hardcoded = filter (\<lambda>c. IsHardcoded (Info c))
                        (filter (\<lambda>c. Stage (Info c) = stage) (loaded_categories ascii_lib config_ab)),
                    Prioritized = insertionSort (\<lambda>a b. Priority (Info a) < Priority (Info b))
                      (filter (\<lambda>c. \<not> IsHardcoded (Info c))
                        (filter (\<lambda>c. Stage (Info c) = stage) (loaded_categories ascii_lib config_ab)))\<rparr>)"
    by blast
  show ?thesis
    using km sm[rule_format, of "S ''s1''"]
    by (simp add: loaded_categories_def config_ab_def parse_a parse_b convertToStringSlice_def
        insertionSort_def)
qed


lemma stage_ba:
  "\<exists>km sd. NewKeywordMatcher ascii_lib insertionSort 0 config_ba [] = Some km \<and>
     stageMap km (S ''s1'') = Some sd \<and>
     map (\<lambda>c. (BaseName (Info c), Priority (Info c))) (Prioritized sd) =
       [(S ''b'', 1), (S ''a'', 1)]"
proof -
  from NewKeywordMatcher_eq[of ascii_lib insertionSort 0 config_ba "[]"] obtain km where
    km: "NewKeywordMatcher ascii_lib insertionSort 0 config_ba [] = Some km"
    and sm: "\<forall>stage. stageMap km stage =
        (if filter (\<lambda>c. Stage (Info c) = stage) (loaded_categories ascii_lib config_ba) = [] then None
         else Some \<lparr>Hardcoded = filter (\<lambda>c. IsHardcoded (Info c))
                        (filter (\<lambda>c. Stage (Info c) = stage) (loaded_categories ascii_lib config_ba)),
                    Prioritized = insertionSort (\<lambda>a b. Priority (Info a) < Priority (Info b))
                      (filter (\<lambda>c. \<not> IsHardcoded (Info c))
                        (filter (\<lambda>c. Stage (Info c) = stage) (loaded_categories ascii_lib config_ba)))\<rparr>)"
    by blast
  show ?thesis
    using km sm[rule_format, of "S ''s1''"]
    by (simp add: loaded_categories_def config_ba_def parse_a parse_b convertToStringSlice_def
        insertionSort_def)
qed

theorem NewKeywordMatcher_sorted_witness:
  "sort_contract insertionSort
   \<and> (\<exists>km stageData. NewKeywordMatcher ascii_lib insertionSort 0 config_ab [] = Some km
        \<and> stageMap km (S ''s1'') = Some stageData
        \<and> sorted (map (\<lambda>c. Priority (Info c)) (Prioritized stageData))
        \<and> mset (Prioritized stageData) =
            mset (filter (\<lambda>c. Stage (Info c) = S ''s1'' \<and> \<not> IsHardcoded (Info c))
                    (loaded_categories ascii_lib config_ab))
        \<and> map (\<lambda>c. (BaseName (Info c), Priority (Info c))) (Prioritized stageData) =
            [(S ''a'', 1), (S ''b'', 1)])"
proof -
  from stage_ab obtain km :: KeywordMatcher and sd :: StageCategories where
    km: "NewKeywordMatcher ascii_lib insertionSort 0 config_ab [] = Some km"
    "stageMap km (S ''s1'') = Some sd"
    "map (\<lambda>c. (BaseName (Info c), Priority (Info c))) (Prioritized sd) =
       [(S ''a'', 1), (S ''b'', 1)]" by auto
  from NewKeywordMatcher_sorted[OF insertionSort_contract, of ascii_lib 0 config_ab "[]"] km(1,2)
  have "sorted (map (\<lambda>c. Priority (Info c)) (Prioritized sd)) \<and>
        mset (Prioritized sd) =
            mset (filter (\<lambda>c. Stage (Info c) = S ''s1'' \<and> \<not> IsHardcoded (Info c))
                    (loaded_categories ascii_lib config_ab))"
    by auto
  with km insertionSort_contract show ?thesis by auto
qed

text \<open>One Go map, visited in its two orders.\<close>

theorem NewKeywordMatcher_order_counterexample:
  "map_of config_ab = map_of config_ba
   \<and> map BaseName (map Info (Prioritized (the (stageMap
         (the (NewKeywordMatcher ascii_lib insertionSort 0 config_ab [])) (S ''s1''))))) =
       [S ''a'', S ''b'']
   \<and> map BaseName (map Info (Prioritized (the (stageMap
         (the (NewKeywordMatcher ascii_lib insertionSort 0 config_ba [])) (S ''s1''))))) =
       [S ''b'', S ''a'']
   \<and> map Priority (map Info (Prioritized (the (stageMap
         (the (NewKeywordMatcher ascii_lib insertionSort 0 config_ab [])) (S ''s1''))))) = [1, 1]"
proof -
  have m: "map_of config_ab = map_of config_ba"
    by (rule ext) (simp add: config_ab_def config_ba_def S_def)
  from stage_ab obtain km :: KeywordMatcher and sd :: StageCategories where
    ab: "NewKeywordMatcher ascii_lib insertionSort 0 config_ab [] = Some km"
    "stageMap km (S ''s1'') = Some sd"
    "map (\<lambda>c. (BaseName (Info c), Priority (Info c))) (Prioritized sd) =
       [(S ''a'', 1), (S ''b'', 1)]" by auto
  from stage_ba obtain km' :: KeywordMatcher and sd' :: StageCategories where
    ba: "NewKeywordMatcher ascii_lib insertionSort 0 config_ba [] = Some km'"
    "stageMap km' (S ''s1'') = Some sd'"
    "map (\<lambda>c. (BaseName (Info c), Priority (Info c))) (Prioritized sd') =
       [(S ''b'', 1), (S ''a'', 1)]" by auto
  from ab(3) have a: "map BaseName (map Info (Prioritized sd)) = [S ''a'', S ''b'']"
    "map Priority (map Info (Prioritized sd)) = [1, 1]"
    by (auto simp: map_eq_Cons_conv)
  from ba(3) have b: "map BaseName (map Info (Prioritized sd')) = [S ''b'', S ''a'']"
    by (auto simp: map_eq_Cons_conv)
  show ?thesis unfolding ab(1) ba(1) using m a b ab(2) ba(2) by simp
qed

lemma exact_categories_filter:
  "exact_categories n (filter (\<lambda>c. Keywords c \<noteq> []) cats) = exact_categories n cats"
  by (induction cats) (auto split: option.splits)

lemma partial_categories_filter:
  "partial_categories n (filter (\<lambda>c. Keywords c \<noteq> []) cats) b = partial_categories n cats b"
  by (induction cats arbitrary: b) (auto simp: Let_def)

lemma findBestMatch_filter:
  "findBestMatch U km tx (filter (\<lambda>c. Keywords c \<noteq> []) cats) = findBestMatch U km tx cats"
  by (simp add: findBestMatch_def Let_def exact_categories_filter partial_categories_filter
      split: option.splits)

lemma findBestMatch_Nil: "findBestMatch U km tx [] = None"
  by (simp add: findBestMatch_def)

lemma first_group_match_cong:
  "\<forall>p\<in>set ps. findBestMatch U km tx (f p) = findBestMatch U km tx (g p) \<Longrightarrow>
   first_group_match U km tx (map f ps) = first_group_match U km tx (map g ps)"
  by (induction ps) (auto split: option.splits)

lemma first_group_match_filter:
  "\<forall>p\<in>set ps. \<not> Q p \<longrightarrow> findBestMatch U km tx (g p) = None \<Longrightarrow>
   first_group_match U km tx (map g (filter Q ps)) = first_group_match U km tx (map g ps)"
  by (induction ps) (auto split: option.splits)

lemma sorted_list_of_subset:
  fixes A :: "int set"
  assumes "finite A" "B \<subseteq> A"
  shows "sorted_list_of_set B = filter (\<lambda>p. p \<in> B) (sorted_list_of_set A)"
proof (rule sorted_distinct_set_unique)
  from assms have fB: "finite B" by (rule rev_finite_subset)
  show "sorted (sorted_list_of_set B)" by simp
  show "distinct (sorted_list_of_set B)" by simp
  show "sorted (filter (\<lambda>p. p \<in> B) (sorted_list_of_set A))" by (simp add: sorted_wrt_filter)
  show "distinct (filter (\<lambda>p. p \<in> B) (sorted_list_of_set A))" by simp
  show "set (sorted_list_of_set B) = set (filter (\<lambda>p. p \<in> B) (sorted_list_of_set A))"
    using assms fB by auto
qed

lemma groups_by_priority_filter:
  "first_group_match U km tx (groups_by_priority (filter (\<lambda>c. Keywords c \<noteq> []) cs)) =
   first_group_match U km tx (groups_by_priority cs)"
proof -
  let ?ne = "\<lambda>c. Keywords c \<noteq> []"
  let ?f = "\<lambda>c. Priority (Info c)"
  let ?A = "?f ` set cs"
  let ?B = "?f ` set (filter ?ne cs)"
  let ?g = "\<lambda>p. filter (\<lambda>c. ?f c = p) (filter ?ne cs)"
  let ?h = "\<lambda>p. filter (\<lambda>c. ?f c = p) cs"
  have sub: "?B \<subseteq> ?A" by auto
  have "groups_by_priority (filter ?ne cs) = map ?g (sorted_list_of_set ?B)"
    by (simp add: groups_by_priority_def)
  also have "sorted_list_of_set ?B = filter (\<lambda>p. p \<in> ?B) (sorted_list_of_set ?A)"
    by (rule sorted_list_of_subset[OF _ sub]) simp
  finally have "first_group_match U km tx (groups_by_priority (filter ?ne cs)) =
      first_group_match U km tx (map ?g (filter (\<lambda>p. p \<in> ?B) (sorted_list_of_set ?A)))"
    by simp
  also have "\<dots> = first_group_match U km tx (map ?g (sorted_list_of_set ?A))"
  proof (rule first_group_match_filter, intro ballI impI)
    fix p assume "p \<notin> ?B"
    then have "?g p = []" by (auto simp: filter_empty_conv)
    then show "findBestMatch U km tx (?g p) = None" by (simp add: findBestMatch_Nil)
  qed
  also have "\<dots> = first_group_match U km tx (map ?h (sorted_list_of_set ?A))"
  proof (rule first_group_match_cong, intro ballI)
    fix p
    have "?g p = filter ?ne (?h p)" by (induction cs) auto
    then show "findBestMatch U km tx (?g p) = findBestMatch U km tx (?h p)"
      using findBestMatch_filter[of U km tx "?h p"] by (simp only:)
  qed
  also have "map ?h (sorted_list_of_set ?A) = groups_by_priority cs"
    by (simp add: groups_by_priority_def)
  finally show ?thesis .
qed

lemma prioritized_loop_filter:
  assumes "sorted (map (\<lambda>c. Priority (Info c)) cs)"
  shows "prioritized_loop U km tx cp [] (filter (\<lambda>c. Keywords c \<noteq> []) cs) =
         prioritized_loop U km tx cp [] cs"
proof -
  from assms have "sorted (map (\<lambda>c. Priority (Info c)) (filter (\<lambda>c. Keywords c \<noteq> []) cs))"
    by (rule sorted_filter)
  then show ?thesis
    unfolding prioritized_loop_start priority_groups_sorted[OF assms]
    by (simp add: priority_groups_sorted groups_by_priority_filter)
qed

lemma without_empty_contractions: "contractions (without_empty km) = contractions km"
  by (simp add: without_empty_def)

lemma first_group_match_contractions:
  "contractions km = contractions km' \<Longrightarrow>
   first_group_match U km tx gs = first_group_match U km' tx gs"
  by (induction gs) (auto simp: findBestMatch_contractions[of km km'] split: option.splits)

lemma prioritized_loop_contractions:
  "contractions km = contractions km' \<Longrightarrow>
   prioritized_loop U km tx cp [] xs = prioritized_loop U km' tx cp [] xs"
  unfolding prioritized_loop_start by (simp add: first_group_match_contractions[of km km'])

lemma hardcoded_filter:
  "(if filter (\<lambda>c. Keywords c \<noteq> []) cats \<noteq> []
    then findBestMatch U km tx (filter (\<lambda>c. Keywords c \<noteq> []) cats) else None) =
   (if cats \<noteq> [] then findBestMatch U km tx cats else None)"
proof (cases "filter (\<lambda>c. Keywords c \<noteq> []) cats = []")
  case True
  have "findBestMatch U km tx cats = findBestMatch U km tx (filter (\<lambda>c. Keywords c \<noteq> []) cats)"
    by (simp only: findBestMatch_filter)
  also have "\<dots> = None" unfolding True by (rule findBestMatch_Nil)
  finally show ?thesis using True by simp
next
  case False
  then have "cats \<noteq> []" by auto
  with False show ?thesis by (simp add: findBestMatch_filter)
qed

lemma find_filter:
  "\<forall>c\<in>set xs. \<not> Q c \<longrightarrow> \<not> P c \<Longrightarrow> find P (filter Q xs) = find P xs"
  by (induction xs) auto

lemma ProcessStage_without_empty:
  assumes "\<forall>sd. stageMap km stage = Some sd \<longrightarrow> sorted (map (\<lambda>c. Priority (Info c)) (Prioritized sd))"
  shows "ProcessStage U (without_empty km) tx stage = ProcessStage U km tx stage"
proof (cases "stageMap km stage")
  case None
  then show ?thesis by (simp add: ProcessStage_def without_empty_def)
next
  case (Some sd)
  let ?ne = "\<lambda>c. Keywords c \<noteq> []"
  let ?km = "without_empty km"
  have sm: "stageMap ?km stage =
      Some \<lparr>Hardcoded = filter ?ne (Hardcoded sd), Prioritized = filter ?ne (Prioritized sd)\<rparr>"
    by (simp add: without_empty_def Some)
  from assms Some have srt: "sorted (map (\<lambda>c. Priority (Info c)) (Prioritized sd))" by simp
  have c: "contractions ?km = contractions km" by (rule without_empty_contractions)
  have h: "(if filter ?ne (Hardcoded sd) \<noteq> []
            then findBestMatch U ?km tx (filter ?ne (Hardcoded sd)) else None) =
           (if Hardcoded sd \<noteq> [] then findBestMatch U km tx (Hardcoded sd) else None)"
    unfolding findBestMatch_contractions[OF c] by (rule hardcoded_filter)
  have l: "prioritized_loop U ?km tx (- 1) [] (filter ?ne (Prioritized sd)) =
           prioritized_loop U km tx (- 1) [] (Prioritized sd)"
    unfolding prioritized_loop_contractions[OF c] by (rule prioritized_loop_filter[OF srt])
  have L: "ProcessStage U ?km tx stage =
      (case (if filter ?ne (Hardcoded sd) \<noteq> []
             then findBestMatch U ?km tx (filter ?ne (Hardcoded sd)) else None) of
         Some result \<Rightarrow> returnValue result
       | None \<Rightarrow>
           (case prioritized_loop U ?km tx (- 1) [] (filter ?ne (Prioritized sd)) of
              Some label \<Rightarrow> label
            | None \<Rightarrow> S ''unknown''))"
    by (simp add: ProcessStage_def sm cong: option.case_cong)
  have R: "ProcessStage U km tx stage =
      (case (if Hardcoded sd \<noteq> [] then findBestMatch U km tx (Hardcoded sd) else None) of
         Some result \<Rightarrow> returnValue result
       | None \<Rightarrow>
           (case prioritized_loop U km tx (- 1) [] (Prioritized sd) of
              Some label \<Rightarrow> label
            | None \<Rightarrow> S ''unknown''))"
    by (simp add: ProcessStage_def Some)
  show ?thesis unfolding L R h l by (rule refl)
qed

lemma ProcessStage_special_without_empty:
  assumes "\<forall>sd. stageMap km stage = Some sd \<longrightarrow> sorted (map (\<lambda>c. Priority (Info c)) (Prioritized sd))"
    and "\<not> ((stage = S ''s3'' \<or> stage = S ''s4'') \<and>
            (normalizeText U km tx = S ''no'' \<or> HasPrefix (normalizeText U km tx) (S ''no ''))) \<or>
         (\<forall>sd. stageMap km stage = Some sd \<longrightarrow>
            (\<forall>c\<in>set (Prioritized sd). Keywords c = [] \<longrightarrow> BaseName (Info c) \<noteq> S ''dnq''))"
  shows "ProcessStage_special U (without_empty km) tx stage = ProcessStage_special U km tx stage"
proof (cases "stageMap km stage")
  case None
  then show ?thesis by (simp add: ProcessStage_special_def without_empty_def)
next
  case (Some sd)
  let ?ne = "\<lambda>c. Keywords c \<noteq> []"
  let ?km = "without_empty km"
  let ?dnq = "\<lambda>catEntry. BaseName (Info catEntry) = S ''dnq''"
  let ?fb = "(stage = S ''s3'' \<or> stage = S ''s4'') \<and>
            (normalizeText U km tx = S ''no'' \<or> HasPrefix (normalizeText U km tx) (S ''no ''))"
  have sm: "stageMap ?km stage =
      Some \<lparr>Hardcoded = filter ?ne (Hardcoded sd), Prioritized = filter ?ne (Prioritized sd)\<rparr>"
    by (simp add: without_empty_def Some)
  from assms(1) Some have srt: "sorted (map (\<lambda>c. Priority (Info c)) (Prioritized sd))" by simp
  have c: "contractions ?km = contractions km" by (rule without_empty_contractions)
  have n: "normalizeText U ?km tx = normalizeText U km tx"
    by (rule normalizeText_contractions[OF c])
  have h: "(if filter ?ne (Hardcoded sd) \<noteq> []
            then findBestMatch U ?km tx (filter ?ne (Hardcoded sd)) else None) =
           (if Hardcoded sd \<noteq> [] then findBestMatch U km tx (Hardcoded sd) else None)"
    unfolding findBestMatch_contractions[OF c] by (rule hardcoded_filter)
  have l: "prioritized_loop U ?km tx (- 1) [] (filter ?ne (Prioritized sd)) =
           prioritized_loop U km tx (- 1) [] (Prioritized sd)"
    unfolding prioritized_loop_contractions[OF c] by (rule prioritized_loop_filter[OF srt])
  have f: "(if ?fb then find ?dnq (filter ?ne (Prioritized sd)) else None) =
           (if ?fb then find ?dnq (Prioritized sd) else None)"
  proof (cases ?fb)
    case False
    then show ?thesis by (simp only: if_False)
  next
    case True
    with assms(2) Some have "\<forall>c\<in>set (Prioritized sd). \<not> ?ne c \<longrightarrow> \<not> ?dnq c" by auto
    then have "find ?dnq (filter ?ne (Prioritized sd)) = find ?dnq (Prioritized sd)"
      by (rule find_filter)
    then show ?thesis by (simp only:)
  qed
  have L: "ProcessStage_special U ?km tx stage =
      (case (if filter ?ne (Hardcoded sd) \<noteq> []
             then findBestMatch U ?km tx (filter ?ne (Hardcoded sd)) else None) of
         Some result \<Rightarrow> returnValue result
       | None \<Rightarrow>
           (case prioritized_loop U ?km tx (- 1) [] (filter ?ne (Prioritized sd)) of
              Some label \<Rightarrow> label
            | None \<Rightarrow>
                (case (if ?fb then find ?dnq (filter ?ne (Prioritized sd)) else None) of
                   Some catEntry \<Rightarrow> ReturnValue (Info catEntry)
                 | None \<Rightarrow> S ''UNKNOWN_'' @ stage)))"
    by (simp add: ProcessStage_special_def Let_def sm n cong: option.case_cong)
  have R: "ProcessStage_special U km tx stage =
      (case (if Hardcoded sd \<noteq> [] then findBestMatch U km tx (Hardcoded sd) else None) of
         Some result \<Rightarrow> returnValue result
       | None \<Rightarrow>
           (case prioritized_loop U km tx (- 1) [] (Prioritized sd) of
              Some label \<Rightarrow> label
            | None \<Rightarrow>
                (case (if ?fb then find ?dnq (Prioritized sd) else None) of
                   Some catEntry \<Rightarrow> ReturnValue (Info catEntry)
                 | None \<Rightarrow> S ''UNKNOWN_'' @ stage)))"
    by (simp add: ProcessStage_special_def Let_def Some)
  show ?thesis unfolding L R h l f by (rule refl)
qed

lemma load_categories_append:
  "load_categories U km (xs @ ys) =
     (case load_categories U km xs of None \<Rightarrow> None | Some km' \<Rightarrow> load_categories U km' ys)"
  by (induction xs arbitrary: km)
    (auto simp: Let_def split: option.splits if_splits simp del: prepareKeywordEntries.simps)

lemma NewKeywordMatcher_skip:
  assumes "parseCategoryName U categoryKey = None \<or> convertToStringSlice v = []"
  shows "NewKeywordMatcher U sort_Slice now (before @ (categoryKey, v) # after) path =
         NewKeywordMatcher U sort_Slice now (before @ after) path"
proof -
  have "load_categories U km ((categoryKey, v) # after) = load_categories U km after" for km
    using assms by (auto split: option.splits)
  then have "load_categories U km (before @ (categoryKey, v) # after) =
      load_categories U km (before @ after)" for km
    by (simp add: load_categories_append split: option.splits)
  then show ?thesis by (simp add: NewKeywordMatcher_def Let_def)
qed

text \<open>
  C6 (as amended). Given a \<^verbatim>\<open>sort.Slice\<close> that returns a sorted permutation,
  \<open>NewKeywordMatcher\<close> fails on no configuration. An entry whose key parses and whose
  value holds at least one string, none of which normalizes to a non-empty keyword, gives
  a category with an empty keyword list in the hardcoded or prioritized list of its stage.
  Categories without keywords yield no keyword match: \<open>findBestMatch\<close> returns the same
  on every group with and without them, and \<open>ProcessStage\<close> of src/stage_processing.go
  returns on every text and stage what it returns for the matcher \<open>without_empty km\<close>,
  from which they are removed. The version of src/unnamed/part_001 does so too, except
  through its special case for \<^verbatim>\<open>s3\<close> and \<^verbatim>\<open>s4\<close>, where a category \<^verbatim>\<open>dnq\<close> without
  keywords still gives its label to the text \<^verbatim>\<open>no\<close>: the two matchers agree whenever the
  special case does not apply or no category without keywords has the base name \<^verbatim>\<open>dnq\<close>.
  An entry whose value holds no string at all is skipped wherever it stands in the
  configuration: the matcher is the one built without the entry.
\<close>

theorem NewKeywordMatcher_empty_category:
  assumes "sort_contract sort_Slice"
  shows "\<exists>km. NewKeywordMatcher U sort_Slice now cfg path = Some km \<and>
     (\<forall>categoryKey v info.
        (categoryKey, v) \<in> set cfg \<and> parseCategoryName U categoryKey = Some info \<and>
        convertToStringSlice v \<noteq> [] \<and>
        (\<forall>kw\<in>set (convertToStringSlice v). normalizeText U empty_matcher kw = [])
        \<longrightarrow> (\<exists>stageData. stageMap km (Stage info) = Some stageData \<and>
               \<lparr>Info = info, Keywords = []\<rparr>
                 \<in> set (if IsHardcoded info then Hardcoded stageData
                        else Prioritized stageData))) \<and>
     (\<forall>tx cats. findBestMatch U km tx (filter (\<lambda>c. Keywords c \<noteq> []) cats) =
                 findBestMatch U km tx cats) \<and>
     (\<forall>tx stage. ProcessStage U (without_empty km) tx stage = ProcessStage U km tx stage) \<and>
     (\<forall>tx stage.
        \<not> ((stage = S ''s3'' \<or> stage = S ''s4'') \<and>
           (normalizeText U km tx = S ''no'' \<or> HasPrefix (normalizeText U km tx) (S ''no ''))) \<or>
        (\<forall>sd. stageMap km stage = Some sd \<longrightarrow>
           (\<forall>c\<in>set (Prioritized sd). Keywords c = [] \<longrightarrow> BaseName (Info c) \<noteq> S ''dnq''))
        \<longrightarrow> ProcessStage_special U (without_empty km) tx stage =
            ProcessStage_special U km tx stage) \<and>
     (\<forall>before categoryKey v after.
        cfg = before @ (categoryKey, v) # after \<and> convertToStringSlice v = []
        \<longrightarrow> NewKeywordMatcher U sort_Slice now (before @ after) path = Some km)"
proof -
  let ?lt = "\<lambda>a b. Priority (Info a) < Priority (Info b)"
  let ?f = "\<lambda>c. Priority (Info c)"
  from NewKeywordMatcher_eq[of U sort_Slice now cfg path] obtain km where
    km: "NewKeywordMatcher U sort_Slice now cfg path = Some km"
    and sm: "\<forall>stage. stageMap km stage =
        (if filter (\<lambda>c. Stage (Info c) = stage) (loaded_categories U cfg) = [] then None
         else Some \<lparr>Hardcoded = filter (\<lambda>c. IsHardcoded (Info c))
                        (filter (\<lambda>c. Stage (Info c) = stage) (loaded_categories U cfg)),
                    Prioritized = sort_Slice ?lt
                      (filter (\<lambda>c. \<not> IsHardcoded (Info c))
                        (filter (\<lambda>c. Stage (Info c) = stage) (loaded_categories U cfg)))\<rparr>)"
    by blast
  from assms have ms: "mset (sort_Slice ?lt xs) = mset xs" and so: "sorted (map ?f (sort_Slice ?lt xs))"
    for xs by (simp_all add: sort_contract_def)
  have set_sort: "set (sort_Slice ?lt xs) = set xs" for xs using ms by (rule mset_eq_setD)
  have srt: "\<forall>sd. stageMap km stage = Some sd \<longrightarrow> sorted (map ?f (Prioritized sd))" for stage
    using sm[rule_format, of stage] so by (auto split: if_splits)
  have incl: "\<exists>stageData. stageMap km (Stage info) = Some stageData \<and>
               \<lparr>Info = info, Keywords = []\<rparr>
                 \<in> set (if IsHardcoded info then Hardcoded stageData else Prioritized stageData)"
    if h: "(categoryKey, v) \<in> set cfg \<and> parseCategoryName U categoryKey = Some info \<and>
        convertToStringSlice v \<noteq> [] \<and>
        (\<forall>kw\<in>set (convertToStringSlice v). normalizeText U empty_matcher kw = [])"
    for categoryKey v info
  proof -
    let ?c = "\<lparr>Info = info, Keywords = []\<rparr>"
    let ?cs = "filter (\<lambda>c. Stage (Info c) = Stage info) (loaded_categories U cfg)"
    from h have "keyword_entries U (convertToStringSlice v) = []"
      by (simp add: keyword_entries_def filter_empty_conv)
    with h have "?c \<in> set (loaded_categories U cfg)"
      by (force simp: loaded_categories_def)
    then have c: "?c \<in> set ?cs" by simp
    have ne: "?cs \<noteq> []"
    proof
      assume "?cs = []"
      with c show False by (simp only: list.set empty_iff)
    qed
    let ?sd = "\<lparr>Hardcoded = filter (\<lambda>c. IsHardcoded (Info c)) ?cs,
                Prioritized = sort_Slice ?lt (filter (\<lambda>c. \<not> IsHardcoded (Info c)) ?cs)\<rparr>"
    have sd: "stageMap km (Stage info) = Some ?sd"
      using sm[rule_format, of "Stage info"] ne by simp
    from c have "?c \<in> set (if IsHardcoded info then Hardcoded ?sd else Prioritized ?sd)"
      by (simp add: set_sort)
    with sd show ?thesis by (intro exI[of _ ?sd] conjI)
  qed
  have fil: "findBestMatch U km tx (filter (\<lambda>c. Keywords c \<noteq> []) cats) =
      findBestMatch U km tx cats" for tx cats
    by (rule findBestMatch_filter)
  have ps: "ProcessStage U (without_empty km) tx stage = ProcessStage U km tx stage" for tx stage
    by (rule ProcessStage_without_empty[OF srt])
  have pss: "ProcessStage_special U (without_empty km) tx stage = ProcessStage_special U km tx stage"
    if "\<not> ((stage = S ''s3'' \<or> stage = S ''s4'') \<and>
           (normalizeText U km tx = S ''no'' \<or> HasPrefix (normalizeText U km tx) (S ''no ''))) \<or>
        (\<forall>sd. stageMap km stage = Some sd \<longrightarrow>
           (\<forall>c\<in>set (Prioritized sd). Keywords c = [] \<longrightarrow> BaseName (Info c) \<noteq> S ''dnq''))"
    for tx stage
    using srt that by (rule ProcessStage_special_without_empty)
  have skip: "NewKeywordMatcher U sort_Slice now (before @ after) path = Some km"
    if "cfg = before @ (categoryKey, v) # after \<and> convertToStringSlice v = []"
    for before categoryKey v after
  proof -
    from that have "NewKeywordMatcher U sort_Slice now cfg path =
        NewKeywordMatcher U sort_Slice now (before @ after) path"
      using NewKeywordMatcher_skip[of U categoryKey v sort_Slice now before after path] by simp
    with km show ?thesis by simp
  qed
  show ?thesis
  proof (intro exI[of _ km] conjI allI impI)
    show "NewKeywordMatcher U sort_Slice now cfg path = Some km" by (rule km)
  qed (use incl fil ps pss skip in blast)+
qed

lemma normalize_blank: "normalizeText ascii_lib empty_matcher (S ''  '') = []"
  by (simp add: normalizeText_def empty_matcher_def ascii_lib_def string_eval)

theorem NewKeywordMatcher_empty_category_witness:
  "sort_contract insertionSort
   \<and> (S ''dnq_p5_s3'', Slice [Str (S ''  '')]) \<in> set config_blank_skip
   \<and> parseCategoryName ascii_lib (S ''dnq_p5_s3'') = Some (Info dnq_bucket)
   \<and> convertToStringSlice (Slice [Str (S ''  '')]) = [S ''  '']
   \<and> normalizeText ascii_lib empty_matcher (S ''  '') = []
   \<and> config_blank_skip = config_blank @ [(S ''busy_p1_s3'', Slice [])]
   \<and> convertToStringSlice (Slice []) = []
   \<and> (\<exists>km. NewKeywordMatcher ascii_lib insertionSort 0 config_blank_skip [] = Some km \<and>
         (\<exists>stageData. stageMap km (S ''s3'') = Some stageData \<and>
            \<lparr>Info = Info dnq_bucket, Keywords = []\<rparr> \<in> set (Prioritized stageData)) \<and>
         findBestMatch ascii_lib km (S ''no'') [\<lparr>Info = Info dnq_bucket, Keywords = []\<rparr>] = None \<and>
         ProcessStage ascii_lib (without_empty km) (S ''no'') (S ''s3'') =
           ProcessStage ascii_lib km (S ''no'') (S ''s3'') \<and>
         normalizeText ascii_lib km (S ''not qualified'') = S ''not qualified'' \<and>
         ProcessStage_special ascii_lib (without_empty km) (S ''not qualified'') (S ''s3'') =
           ProcessStage_special ascii_lib km (S ''not qualified'') (S ''s3'') \<and>
         NewKeywordMatcher ascii_lib insertionSort 0 config_blank [] = Some km)"
proof -
  let ?b = "\<lparr>Info = Info dnq_bucket, Keywords = []\<rparr>"
  have p: "parseCategoryName ascii_lib (S ''dnq_p5_s3'') = Some (Info dnq_bucket)"
    by (simp add: parse_dnq dnq_bucket_def)
  have m: "(S ''dnq_p5_s3'', Slice [Str (S ''  '')]) \<in> set config_blank_skip"
    by (simp add: config_blank_skip_def config_blank_def)
  have c: "convertToStringSlice (Slice [Str (S ''  '')]) = [S ''  '']"
    by (simp add: convertToStringSlice_def)
  have c0: "convertToStringSlice (Slice []) = []" by (simp add: convertToStringSlice_def)
  have d: "config_blank_skip = config_blank @ [(S ''busy_p1_s3'', Slice [])]"
    by (rule config_blank_skip_def)
  from NewKeywordMatcher_empty_category[OF insertionSort_contract,
      of ascii_lib 0 config_blank_skip "[]"]
  obtain km :: KeywordMatcher where
    km: "NewKeywordMatcher ascii_lib insertionSort 0 config_blank_skip [] = Some km"
    and incl: "\<And>categoryKey v info.
        (categoryKey, v) \<in> set config_blank_skip \<and>
        parseCategoryName ascii_lib categoryKey = Some info \<and>
        convertToStringSlice v \<noteq> [] \<and>
        (\<forall>kw\<in>set (convertToStringSlice v). normalizeText ascii_lib empty_matcher kw = [])
        \<Longrightarrow> (\<exists>stageData. stageMap km (Stage info) = Some stageData \<and>
               \<lparr>Info = info, Keywords = []\<rparr>
                 \<in> set (if IsHardcoded info then Hardcoded stageData
                        else Prioritized stageData))"
    and fil: "\<And>tx cats. findBestMatch ascii_lib km tx (filter (\<lambda>c. Keywords c \<noteq> []) cats) =
                 findBestMatch ascii_lib km tx cats"
    and ps: "\<And>tx stage. ProcessStage ascii_lib (without_empty km) tx stage =
                 ProcessStage ascii_lib km tx stage"
    and pss: "\<And>tx stage.
        \<not> ((stage = S ''s3'' \<or> stage = S ''s4'') \<and>
           (normalizeText ascii_lib km tx = S ''no'' \<or>
            HasPrefix (normalizeText ascii_lib km tx) (S ''no ''))) \<or>
        (\<forall>sd. stageMap km stage = Some sd \<longrightarrow>
           (\<forall>c\<in>set (Prioritized sd). Keywords c = [] \<longrightarrow> BaseName (Info c) \<noteq> S ''dnq''))
        \<Longrightarrow> ProcessStage_special ascii_lib (without_empty km) tx stage =
            ProcessStage_special ascii_lib km tx stage"
    and skip: "\<And>before categoryKey v after.
        config_blank_skip = before @ (categoryKey, v) # after \<and> convertToStringSlice v = []
        \<Longrightarrow> NewKeywordMatcher ascii_lib insertionSort 0 (before @ after) [] = Some km"
    by blast
  have 1: "\<exists>stageData. stageMap km (S ''s3'') = Some stageData \<and>
            ?b \<in> set (Prioritized stageData)"
    using incl[of "S ''dnq_p5_s3''" "Slice [Str (S ''  '')]" "Info dnq_bucket"] m p
    by (simp add: c normalize_blank dnq_bucket_def)
  have 2: "findBestMatch ascii_lib km (S ''no'') [?b] = None"
    using fil[of "S ''no''" "[?b]"] by (simp add: findBestMatch_Nil)
  from NewKeywordMatcher_eq[of ascii_lib insertionSort 0 config_blank_skip "[]"] km
  have "contractions km = contractions empty_matcher" by (auto simp: empty_matcher_def)
  from normalizeText_contractions[OF this, of ascii_lib "S ''not qualified''"]
  have 3: "normalizeText ascii_lib km (S ''not qualified'') = S ''not qualified''"
    unfolding normalize_not_qualified .
  have "\<not> ((S ''s3'' = S ''s3'' \<or> S ''s3'' = S ''s4'') \<and>
           (normalizeText ascii_lib km (S ''not qualified'') = S ''no'' \<or>
            HasPrefix (normalizeText ascii_lib km (S ''not qualified'')) (S ''no '')))"
    unfolding 3 by (simp add: S_def HasPrefix_def)
  then have 4: "ProcessStage_special ascii_lib (without_empty km) (S ''not qualified'') (S ''s3'') =
           ProcessStage_special ascii_lib km (S ''not qualified'') (S ''s3'')"
    by (intro pss disjI1)
  have 5: "NewKeywordMatcher ascii_lib insertionSort 0 config_blank [] = Some km"
    using skip[of config_blank "S ''busy_p1_s3''" "Slice []" "[]"] d c0 by simp
  have E: "\<exists>km. NewKeywordMatcher ascii_lib insertionSort 0 config_blank_skip [] = Some km \<and>
         (\<exists>stageData. stageMap km (S ''s3'') = Some stageData \<and>
            ?b \<in> set (Prioritized stageData)) \<and>
         findBestMatch ascii_lib km (S ''no'') [?b] = None \<and>
         ProcessStage ascii_lib (without_empty km) (S ''no'') (S ''s3'') =
           ProcessStage ascii_lib km (S ''no'') (S ''s3'') \<and>
         normalizeText ascii_lib km (S ''not qualified'') = S ''not qualified'' \<and>
         ProcessStage_special ascii_lib (without_empty km) (S ''not qualified'') (S ''s3'') =
           ProcessStage_special ascii_lib km (S ''not qualified'') (S ''s3'') \<and>
         NewKeywordMatcher ascii_lib insertionSort 0 config_blank [] = Some km"
    using km 1 2 ps[of "S ''no''" "S ''s3''"] 3 4 5 by (intro exI[of _ km] conjI)
  from insertionSort_contract m p c normalize_blank d c0 E show ?thesis by (intro conjI)
qed

lemma config_blank_matcher:
  "\<exists>km. NewKeywordMatcher ascii_lib insertionSort 0 config_blank [] = Some km \<and>
     contractions km = contractions empty_matcher \<and>
     stageMap km (S ''s3'') =
       Some \<lparr>Hardcoded = [], Prioritized = [\<lparr>Info = Info dnq_bucket, Keywords = []\<rparr>]\<rparr>"
proof -
  have l: "loaded_categories ascii_lib config_blank = [\<lparr>Info = Info dnq_bucket, Keywords = []\<rparr>]"
    by (simp add: loaded_categories_def config_blank_def parse_dnq convertToStringSlice_def
        keyword_entries_def normalize_blank dnq_bucket_def)
  from NewKeywordMatcher_eq[of ascii_lib insertionSort 0 config_blank "[]"] obtain km where
    km: "NewKeywordMatcher ascii_lib insertionSort 0 config_blank [] = Some km"
    and con: "contractions km = map_of contraction_list"
    and sm: "\<forall>stage. stageMap km stage =
        (if filter (\<lambda>c. Stage (Info c) = stage) (loaded_categories ascii_lib config_blank) = []
         then None
         else Some \<lparr>Hardcoded = filter (\<lambda>c. IsHardcoded (Info c))
                        (filter (\<lambda>c. Stage (Info c) = stage)
                          (loaded_categories ascii_lib config_blank)),
                    Prioritized = insertionSort (\<lambda>a b. Priority (Info a) < Priority (Info b))
                      (filter (\<lambda>c. \<not> IsHardcoded (Info c))
                        (filter (\<lambda>c. Stage (Info c) = stage)
                          (loaded_categories ascii_lib config_blank)))\<rparr>)"
    by blast
  have "stageMap km (S ''s3'') =
       Some \<lparr>Hardcoded = [], Prioritized = [\<lparr>Info = Info dnq_bucket, Keywords = []\<rparr>]\<rparr>"
    unfolding sm[rule_format] l by (simp add: dnq_bucket_def insertionSort_def)
  with km con show ?thesis by (auto simp: empty_matcher_def)
qed

text \<open>A value without strings leaves no category, and a category \<^verbatim>\<open>dnq\<close> without
  keywords changes the result of the version with the special case.\<close>

theorem NewKeywordMatcher_no_strings_counterexample:
  "parseCategoryName ascii_lib (S ''dnq_p5_s3'') \<noteq> None
   \<and> convertToStringSlice (Slice []) = []
   \<and> config_no_strings = [(S ''dnq_p5_s3'', Slice [])]
   \<and> NewKeywordMatcher ascii_lib insertionSort 0 config_no_strings [] \<noteq> None
   \<and> stageMap (the (NewKeywordMatcher ascii_lib insertionSort 0 config_no_strings [])) (S ''s3'')
       = None
   \<and> config_blank = [(S ''dnq_p5_s3'', Slice [Str (S ''  '')])]
   \<and> NewKeywordMatcher ascii_lib insertionSort 0 config_blank [] \<noteq> None
   \<and> map Keywords (Prioritized (the (stageMap
         (the (NewKeywordMatcher ascii_lib insertionSort 0 config_blank [])) (S ''s3'')))) = [[]]
   \<and> ProcessStage_special ascii_lib
         (the (NewKeywordMatcher ascii_lib insertionSort 0 config_blank [])) (S ''no'') (S ''s3'') =
       S ''DNQ''
   \<and> NewKeywordMatcher ascii_lib insertionSort 0 [] [] \<noteq> None
   \<and> ProcessStage_special ascii_lib
         (the (NewKeywordMatcher ascii_lib insertionSort 0 [] [])) (S ''no'') (S ''s3'') =
       S ''UNKNOWN_s3''"
proof -
  from NewKeywordMatcher_eq[of ascii_lib insertionSort 0 config_no_strings "[]"] obtain km where
    km: "NewKeywordMatcher ascii_lib insertionSort 0 config_no_strings [] = Some km"
    and sm: "\<forall>stage. stageMap km stage =
        (if filter (\<lambda>c. Stage (Info c) = stage) (loaded_categories ascii_lib config_no_strings) = []
         then None
         else Some \<lparr>Hardcoded = filter (\<lambda>c. IsHardcoded (Info c))
                        (filter (\<lambda>c. Stage (Info c) = stage)
                          (loaded_categories ascii_lib config_no_strings)),
                    Prioritized = insertionSort (\<lambda>a b. Priority (Info a) < Priority (Info b))
                      (filter (\<lambda>c. \<not> IsHardcoded (Info c))
                        (filter (\<lambda>c. Stage (Info c) = stage)
                          (loaded_categories ascii_lib config_no_strings)))\<rparr>)"
    by blast
  have "loaded_categories ascii_lib config_no_strings = []"
    by (simp add: loaded_categories_def config_no_strings_def parse_dnq convertToStringSlice_def)
  with sm have "stageMap km (S ''s3'') = None" by simp
  then have A: "parseCategoryName ascii_lib (S ''dnq_p5_s3'') \<noteq> None
   \<and> convertToStringSlice (Slice []) = []
   \<and> config_no_strings = [(S ''dnq_p5_s3'', Slice [])]
   \<and> NewKeywordMatcher ascii_lib insertionSort 0 config_no_strings [] \<noteq> None
   \<and> stageMap (the (NewKeywordMatcher ascii_lib insertionSort 0 config_no_strings [])) (S ''s3'')
       = None"
    unfolding km
    by (simp add: parse_dnq convertToStringSlice_def config_no_strings_def)
  let ?b = "\<lparr>Info = Info dnq_bucket, Keywords = []\<rparr>"
  from config_blank_matcher obtain kb :: KeywordMatcher where
    kb: "NewKeywordMatcher ascii_lib insertionSort 0 config_blank [] = Some kb"
    and cb: "contractions kb = contractions empty_matcher"
    and sb: "stageMap kb (S ''s3'') = Some \<lparr>Hardcoded = [], Prioritized = [?b]\<rparr>"
    by blast
  have nb: "normalizeText ascii_lib kb (S ''no'') = S ''no''"
    using normalizeText_contractions[OF cb, of ascii_lib "S ''no''"] normalize_no by simp
  have fb: "findBestMatch ascii_lib kb (S ''no'') [?b] = None"
    by (rule findBestMatch_no_candidate) simp
  have B: "ProcessStage_special ascii_lib kb (S ''no'') (S ''s3'') = S ''DNQ''"
    unfolding ProcessStage_special_def Let_def sb nb using fb
    by (simp add: dnq_bucket_def)
  have e: "NewKeywordMatcher ascii_lib insertionSort 0 [] [] =
      Some (sort_stages insertionSort empty_matcher)"
    by (simp add: NewKeywordMatcher_def empty_matcher_def)
  have C: "ProcessStage_special ascii_lib (sort_stages insertionSort empty_matcher)
      (S ''no'') (S ''s3'') = S ''UNKNOWN_s3''"
    by (simp add: ProcessStage_special_def sort_stages_def empty_matcher_def) (simp add: S_def)
  have D: "config_blank = [(S ''dnq_p5_s3'', Slice [Str (S ''  '')])]" by (rule config_blank_def)
  show ?thesis
    unfolding kb e option.sel sb using A B C D unfolding km by simp
qed


section \<open>Normalisation\<close>

subsection \<open>Splitting into words and joining\<close>

subsection \<open>Fields and Join\<close>

lemma Fields_Nil [simp]: "Fields [] = []"
  by (simp add: Fields.simps)

lemma Fields_space: "IsSpace c \<Longrightarrow> Fields (c # s) = Fields s"
  by (subst Fields.simps, subst (2) Fields.simps) simp

lemma Fields_nonspace:
  "\<not> IsSpace c \<Longrightarrow> Fields (c # s) =
     (c # takeWhile (\<lambda>c. \<not> IsSpace c) s) # Fields (dropWhile (\<lambda>c. \<not> IsSpace c) s)"
  by (subst Fields.simps) simp

lemma Fields_all_space: "\<forall>r\<in>set s. IsSpace r \<Longrightarrow> Fields s = []"
  by (induction s) (simp_all add: Fields_space)

lemma Fields_word_append:
  assumes "w \<noteq> []" "\<forall>r\<in>set w. \<not> IsSpace r" "IsSpace c"
  shows "Fields (w @ c # s) = w # Fields s"
proof -
  from assms obtain r w' where w: "w = r # w'" by (cases w) auto
  with assms have r: "\<not> IsSpace r" and w': "\<forall>x\<in>set w'. \<not> IsSpace x" by auto
  have tw: "takeWhile (\<lambda>c. \<not> IsSpace c) (w' @ c # s) = w'"
    using w' assms(3) by (simp add: takeWhile_append2)
  have dw: "dropWhile (\<lambda>c. \<not> IsSpace c) (w' @ c # s) = c # s"
    using w' assms(3) by (simp add: dropWhile_append2)
  show ?thesis using Fields_nonspace[OF r, of "w' @ c # s"] tw dw assms(3)
    by (simp add: w Fields_space)
qed

lemma Fields_word:
  assumes "w \<noteq> []" "\<forall>r\<in>set w. \<not> IsSpace r"
  shows "Fields w = [w]"
proof -
  from assms obtain r w' where w: "w = r # w'" by (cases w) auto
  with assms have r: "\<not> IsSpace r" and w': "\<forall>x\<in>set w'. \<not> IsSpace x" by auto
  have tw: "takeWhile (\<lambda>c. \<not> IsSpace c) w' = w'" and dw: "dropWhile (\<lambda>c. \<not> IsSpace c) w' = []"
    using w' by (simp_all add: takeWhile_eq_all_conv)
  show ?thesis unfolding w Fields_nonspace[OF r] tw dw by simp
qed

lemma Fields_induct_split:
  assumes "P []"
    and "\<And>c s. IsSpace c \<Longrightarrow> P s \<Longrightarrow> P (c # s)"
    and "\<And>w. w \<noteq> [] \<Longrightarrow> \<forall>r\<in>set w. \<not> IsSpace r \<Longrightarrow> P w"
    and "\<And>w c s. w \<noteq> [] \<Longrightarrow> \<forall>r\<in>set w. \<not> IsSpace r \<Longrightarrow> IsSpace c \<Longrightarrow> P s \<Longrightarrow> P (w @ c # s)"
  shows "P s"
proof (induction "length s" arbitrary: s rule: less_induct)
  case less
  show ?case
  proof (cases s)
    case Nil
    with assms(1) show ?thesis by simp
  next
    case (Cons c s')
    show ?thesis
    proof (cases "IsSpace c")
      case True
      with less[of s'] Cons assms(2) show ?thesis by simp
    next
      case False
      let ?w = "takeWhile (\<lambda>c. \<not> IsSpace c) s"
      let ?r = "dropWhile (\<lambda>c. \<not> IsSpace c) s"
      have w: "?w \<noteq> []" "\<forall>r\<in>set ?w. \<not> IsSpace r"
        using False Cons by (auto dest: set_takeWhileD)
      have s: "s = ?w @ ?r" by simp
      show ?thesis
      proof (cases ?r)
        case Nil
        with s have "s = ?w" by simp
        with assms(3)[OF w] show ?thesis by simp
      next
        case r: (Cons d t)
        then have d: "IsSpace d" using hd_dropWhile[of "\<lambda>c. \<not> IsSpace c" s] by auto
        have "length t < length s"
          using length_dropWhile_le[of "\<lambda>c. \<not> IsSpace c" s] r by simp
        then have "P t" by (rule less)
        from assms(4)[OF w d this] s r show ?thesis by simp
      qed
    qed
  qed
qed

lemma Fields_words: "w \<in> set (Fields s) \<Longrightarrow> w \<noteq> [] \<and> (\<forall>r\<in>set w. \<not> IsSpace r)"
proof (induction s rule: Fields_induct_split)
  case 1
  then show ?case by simp
next
  case (2 c s)
  then show ?case by (simp add: Fields_space)
next
  case (3 v)
  then show ?case by (simp add: Fields_word)
next
  case (4 v c s)
  then show ?case by (auto simp: Fields_word_append)
qed

lemma Fields_sublist: "w \<in> set (Fields s) \<Longrightarrow> \<exists>a b. s = a @ w @ b"
proof (induction s rule: Fields_induct_split)
  case 1
  then show ?case by simp
next
  case (2 c s)
  then obtain a b where "s = a @ w @ b" by (auto simp: Fields_space)
  then have "c # s = (c # a) @ w @ b" by simp
  then show ?case by blast
next
  case (3 v)
  then have "v = [] @ w @ []" by (simp add: Fields_word)
  then show ?case by blast
next
  case (4 v c s)
  from 4(5) have "w = v \<or> w \<in> set (Fields s)"
    using 4(1-3) by (simp add: Fields_word_append)
  then show ?case
  proof
    assume "w = v"
    then have "v @ c # s = [] @ w @ (c # s)" by simp
    then show ?thesis by blast
  next
    assume "w \<in> set (Fields s)"
    with 4(4) obtain a b where "s = a @ w @ b" by blast
    then have "v @ c # s = (v @ c # a) @ w @ b" by simp
    then show ?thesis by blast
  qed
qed

lemma Fields_append_space: "IsSpace c \<Longrightarrow> Fields (a @ c # b) = Fields a @ Fields b"
proof (induction a rule: Fields_induct_split)
  case 1
  then show ?case by (simp add: Fields_space)
next
  case (2 d s)
  then show ?case by (simp add: Fields_space)
next
  case (3 v)
  then show ?case by (simp add: Fields_word Fields_word_append)
next
  case (4 v d s)
  then show ?case by (simp add: Fields_word_append)
qed


lemma Join_append:
  "ws \<noteq> [] \<Longrightarrow> vs \<noteq> [] \<Longrightarrow> Join (ws @ vs) sep = Join ws sep @ sep @ Join vs sep"
proof (induction ws)
  case Nil
  then show ?case by simp
next
  case (Cons w ws)
  show ?case
  proof (cases "ws = []")
    case True
    with Cons.prems show ?thesis by (simp add: Join_Cons)
  next
    case False
    with Cons show ?thesis by (simp add: Join_Cons)
  qed
qed

lemma Fields_Join: "Fields (Join ws [32]) = concat (map Fields ws)"
proof (induction ws)
  case Nil
  show ?case by simp
next
  case (Cons w ws)
  have sp: "IsSpace 32" by (simp add: IsSpace_def)
  show ?case
  proof (cases "ws = []")
    case True
    then show ?thesis by simp
  next
    case False
    then show ?thesis
      using Cons Fields_append_space[OF sp, of w "Join ws [32]"] by (simp add: Join_Cons)
  qed
qed

lemma Join_concat_Fields:
  assumes "\<forall>w\<in>set ws. Fields w \<noteq> [] \<and> Join (Fields w) [32] = w"
  shows "Join (concat (map Fields ws)) [32] = Join ws [32]"
  using assms
proof (induction ws)
  case Nil
  show ?case by simp
next
  case (Cons w ws)
  show ?case
  proof (cases "ws = []")
    case True
    with Cons.prems show ?thesis by simp
  next
    case False
    then obtain v where "v \<in> set ws" by (cases ws) auto
    with Cons.prems have "Fields v \<noteq> []" by simp
    with \<open>v \<in> set ws\<close> have ne: "concat (map Fields ws) \<noteq> []" by auto
    from Cons.prems have w: "Fields w \<noteq> []" "Join (Fields w) [32] = w" by simp_all
    have "Join (concat (map Fields (w # ws))) [32] =
        Join (Fields w) [32] @ [32] @ Join (concat (map Fields ws)) [32]"
      using Join_append[OF w(1) ne] by simp
    with Cons w False show ?thesis by (simp add: Join_Cons)
  qed
qed

subsection \<open>Single-spaced strings\<close>

lemma re_space_IsSpace: "re_space r \<Longrightarrow> IsSpace r"
  by (auto simp: re_space_def IsSpace_def)

lemma Replace_word:
  "\<forall>r\<in>set w. \<not> IsSpace r \<Longrightarrow>
   ReplaceAllString_spaces (w @ s) repl = w @ ReplaceAllString_spaces s repl"
  by (induction w) (auto dest: re_space_IsSpace)

lemma Join_words_hd:
  assumes "vs \<noteq> []" "\<forall>v\<in>set vs. v \<noteq> [] \<and> (\<forall>r\<in>set v. \<not> IsSpace r)"
  shows "Join vs [32] \<noteq> [] \<and> \<not> IsSpace (hd (Join vs [32])) \<and> \<not> IsSpace (last (Join vs [32]))"
  using assms
proof (induction vs)
  case Nil
  then show ?case by simp
next
  case (Cons v vs)
  from Cons.prems have v: "v \<noteq> []" "\<forall>r\<in>set v. \<not> IsSpace r" by simp_all
  then have hv: "\<not> IsSpace (hd v)" "\<not> IsSpace (last v)" by simp_all
  show ?case
  proof (cases "vs = []")
    case True
    with v hv show ?thesis by simp
  next
    case False
    with Cons have "Join vs [32] \<noteq> []" "\<not> IsSpace (last (Join vs [32]))" by simp_all
    with v hv False show ?thesis by (simp add: Join_Cons)
  qed
qed

lemma Replace_Join_words:
  assumes "\<forall>v\<in>set vs. v \<noteq> [] \<and> (\<forall>r\<in>set v. \<not> IsSpace r)"
  shows "ReplaceAllString_spaces (Join vs [32]) [32] = Join vs [32]"
  using assms
proof (induction vs)
  case Nil
  show ?case by simp
next
  case (Cons v vs)
  from Cons.prems have v: "\<forall>r\<in>set v. \<not> IsSpace r" by simp
  show ?case
  proof (cases "vs = []")
    case True
    then show ?thesis using Replace_word[OF v, of "[]" "[32]"] by simp
  next
    case False
    with Cons.prems Join_words_hd[of vs] have ne: "Join vs [32] \<noteq> []"
      and h: "\<not> IsSpace (hd (Join vs [32]))" by simp_all
    then have "\<not> re_space (hd (Join vs [32]))" using re_space_IsSpace by blast
    with ne have dw: "dropWhile re_space (Join vs [32]) = Join vs [32]"
      by (cases "Join vs [32]") simp_all
    have "re_space 32" by (simp add: re_space_def)
    then show ?thesis
      using Replace_word[OF v, of "32 # Join vs [32]" "[32]"] dw Cons False
      by (simp add: Join_Cons)
  qed
qed

lemma set_Join_words: "r \<in> set (Join vs [32]) \<Longrightarrow> r = 32 \<or> (\<exists>v\<in>set vs. r \<in> set v)"
proof (induction vs)
  case Nil
  then show ?case by simp
next
  case (Cons v vs)
  then show ?case by (cases "vs = []") (auto simp: Join_Cons)
qed

lemma map_space_Join_words:
  assumes "\<forall>v\<in>set vs. \<forall>r\<in>set v. \<not> IsSpace r"
  shows "map (\<lambda>r. if IsSpace r then 32 else r) (Join vs [32]) = Join vs [32]"
proof -
  have "(if IsSpace r then 32 else r) = r" if "r \<in> set (Join vs [32])" for r
    using set_Join_words[OF that] assms by auto
  then show ?thesis by (simp add: map_idI)
qed

lemma dropWhile_hd: "xs \<noteq> [] \<Longrightarrow> \<not> P (hd xs) \<Longrightarrow> dropWhile P xs = xs"
  by (cases xs) simp_all

lemma TrimSpace_id:
  assumes "s = [] \<or> (\<not> IsSpace (hd s) \<and> \<not> IsSpace (last s))"
  shows "TrimSpace s = s"
proof (cases "s = []")
  case True
  then show ?thesis by (simp add: TrimSpace_def)
next
  case False
  with assms have h: "\<not> IsSpace (hd s)" and l: "\<not> IsSpace (last s)" by simp_all
  have 1: "dropWhile IsSpace s = s" using False h by (rule dropWhile_hd)
  have "rev s \<noteq> []" "\<not> IsSpace (hd (rev s))" using False l by (simp_all add: hd_rev)
  then have 2: "dropWhile IsSpace (rev s) = rev s" by (rule dropWhile_hd)
  show ?thesis unfolding TrimSpace_def 1 2 by simp
qed

lemma TrimSpace_Join_words:
  assumes "\<forall>v\<in>set vs. v \<noteq> [] \<and> (\<forall>r\<in>set v. \<not> IsSpace r)"
  shows "TrimSpace (Join vs [32]) = Join vs [32]"
proof (cases "vs = []")
  case True
  then show ?thesis by (simp add: TrimSpace_def)
next
  case False
  from Join_words_hd[OF False assms] show ?thesis by (intro TrimSpace_id) simp
qed

lemma Fields_Join_words:
  assumes "\<forall>v\<in>set vs. v \<noteq> [] \<and> (\<forall>r\<in>set v. \<not> IsSpace r)"
  shows "Fields (Join vs [32]) = vs"
proof -
  have "concat (map Fields vs) = vs"
    using assms by (induction vs) (simp_all add: Fields_word)
  then show ?thesis by (simp add: Fields_Join)
qed

lemma TrimSpace_sublist: "\<exists>a b. s = a @ TrimSpace s @ b"
proof -
  let ?t = "dropWhile IsSpace s"
  have 1: "s = takeWhile IsSpace s @ ?t" by simp
  have "rev (dropWhile IsSpace (rev ?t)) @ rev (takeWhile IsSpace (rev ?t)) =
      rev (takeWhile IsSpace (rev ?t) @ dropWhile IsSpace (rev ?t))"
    by (simp only: rev_append)
  also have "\<dots> = rev (rev ?t)" by (simp only: takeWhile_dropWhile_id)
  also have "\<dots> = ?t" by simp
  finally have "?t = TrimSpace s @ rev (takeWhile IsSpace (rev ?t))"
    by (simp only: TrimSpace_def)
  with 1 have "s = takeWhile IsSpace s @ TrimSpace s @ rev (takeWhile IsSpace (rev ?t))"
    by simp
  then show ?thesis by blast
qed


subsection \<open>Consequences of the library contract\<close>

subsection \<open>Normal forms\<close>

lemma contract_parts:
  assumes "unicode_contract U"
  shows "\<forall>s. NFKD_String U (NFKD_String U s) = NFKD_String U s"
    and "NFKD_String U [] = []"
    and "\<forall>s t c. c < 0x80 \<longrightarrow> NFKD_String U s = s \<longrightarrow> NFKD_String U t = t \<longrightarrow>
        NFKD_String U (s @ c # t) = s @ c # t"
    and "\<forall>s t. NFKD_String U (s @ t) = s @ t \<longrightarrow> NFKD_String U s = s \<and> NFKD_String U t = t"
    and "\<forall>s. NFKD_String U s = s \<longrightarrow> NFKD_String U (ToLower U s) = ToLower U s"
    and "\<forall>r. unicode_ToLower U (unicode_ToLower U r) = unicode_ToLower U r"
proof -
  note c = assms[unfolded unicode_contract_def]
  show "\<forall>s. NFKD_String U (NFKD_String U s) = NFKD_String U s"
    by (rule c[THEN conjunct1])
  show "NFKD_String U [] = []"
    by (rule c[THEN conjunct2, THEN conjunct1])
  show "\<forall>s t c. c < 0x80 \<longrightarrow> NFKD_String U s = s \<longrightarrow> NFKD_String U t = t \<longrightarrow>
        NFKD_String U (s @ c # t) = s @ c # t"
    by (rule c[THEN conjunct2, THEN conjunct2, THEN conjunct1])
  show "\<forall>s t. NFKD_String U (s @ t) = s @ t \<longrightarrow> NFKD_String U s = s \<and> NFKD_String U t = t"
    by (rule c[THEN conjunct2, THEN conjunct2, THEN conjunct2, THEN conjunct1])
  show "\<forall>s. NFKD_String U s = s \<longrightarrow> NFKD_String U (ToLower U s) = ToLower U s"
    by (rule c[THEN conjunct2, THEN conjunct2, THEN conjunct2, THEN conjunct2, THEN conjunct1])
  show "\<forall>r. unicode_ToLower U (unicode_ToLower U r) = unicode_ToLower U r"
    by (rule c[THEN conjunct2, THEN conjunct2, THEN conjunct2, THEN conjunct2, THEN conjunct2])
qed

lemma nf_idem: "unicode_contract U \<Longrightarrow> NFKD_String U (NFKD_String U s) = NFKD_String U s"
  using contract_parts(1)[rule_format] .

lemma nf_Nil: "unicode_contract U \<Longrightarrow> NFKD_String U [] = []"
  using contract_parts(2) .

lemma nf_ascii_join:
  "unicode_contract U \<Longrightarrow> c < 0x80 \<Longrightarrow> NFKD_String U s = s \<Longrightarrow> NFKD_String U t = t \<Longrightarrow>
     NFKD_String U (s @ c # t) = s @ c # t"
  using contract_parts(3)[rule_format] .

lemma nf_split:
  "unicode_contract U \<Longrightarrow> NFKD_String U (s @ t) = s @ t \<Longrightarrow>
     NFKD_String U s = s \<and> NFKD_String U t = t"
  using contract_parts(4)[rule_format] .

lemma nf_lower:
  "unicode_contract U \<Longrightarrow> NFKD_String U s = s \<Longrightarrow> NFKD_String U (ToLower U s) = ToLower U s"
  using contract_parts(5)[rule_format] .

lemma lower_idem:
  "unicode_contract U \<Longrightarrow> unicode_ToLower U (unicode_ToLower U r) = unicode_ToLower U r"
  using contract_parts(6)[rule_format] .

lemma nf_sublist:
  assumes "unicode_contract U" "NFKD_String U (a @ w @ b) = a @ w @ b"
  shows "NFKD_String U w = w"
proof -
  from nf_split[OF assms] have "NFKD_String U (w @ b) = w @ b" by simp
  from nf_split[OF assms(1) this] show ?thesis by simp
qed

lemma nf_ascii:
  assumes "unicode_contract U" "\<forall>r\<in>set s. r < 0x80"
  shows "NFKD_String U s = s"
  using assms(2)
proof (induction s)
  case Nil
  from assms(1) show ?case by (rule nf_Nil)
next
  case (Cons r s)
  then have "r < 0x80" "NFKD_String U s = s" by simp_all
  from nf_ascii_join[OF assms(1) this(1) nf_Nil[OF assms(1)] this(2)] show ?case by simp
qed

lemma nf_map_space:
  assumes "unicode_contract U"
  shows "NFKD_String U (a @ s) = a @ s \<Longrightarrow>
     NFKD_String U (a @ map (\<lambda>r. if IsSpace r then 32 else r) s) =
       a @ map (\<lambda>r. if IsSpace r then 32 else r) s"
proof (induction s arbitrary: a)
  case Nil
  then show ?case by simp
next
  case (Cons r s)
  let ?M = "map (\<lambda>r. if IsSpace r then 32 else r)"
  show ?case
  proof (cases "IsSpace r")
    case True
    from nf_split[OF assms Cons.prems] have a: "NFKD_String U a = a"
      and rs: "NFKD_String U ([r] @ s) = [r] @ s" by simp_all
    from nf_split[OF assms rs] have "NFKD_String U ([] @ s) = [] @ s" by simp
    from Cons.IH[OF this] have "NFKD_String U (?M s) = ?M s" by simp
    from nf_ascii_join[OF assms _ a this, of 32] True show ?thesis by simp
  next
    case False
    from Cons.prems have "NFKD_String U ((a @ [r]) @ s) = (a @ [r]) @ s" by simp
    from Cons.IH[OF this] False show ?thesis by simp
  qed
qed

lemma nf_Join:
  assumes "unicode_contract U" "\<forall>v\<in>set vs. NFKD_String U v = v"
  shows "NFKD_String U (Join vs [32]) = Join vs [32]"
  using assms(2)
proof (induction vs)
  case Nil
  from assms(1) show ?case by (simp add: nf_Nil)
next
  case (Cons v vs)
  show ?case
  proof (cases "vs = []")
    case True
    with Cons.prems show ?thesis by simp
  next
    case False
    from Cons have "NFKD_String U v = v" "NFKD_String U (Join vs [32]) = Join vs [32]"
      by simp_all
    from nf_ascii_join[OF assms(1) _ this, of 32] False show ?thesis by (simp add: Join_Cons)
  qed
qed


subsection \<open>The contraction table\<close>

subsection \<open>The contraction table\<close>

lemma contraction_list_facts:
  "list_all (\<lambda>(k, e). 39 \<in> set k \<and> Fields e \<noteq> [] \<and> Join (Fields e) [32] = e \<and>
      (\<forall>r\<in>set e. r = 32 \<or> (97 \<le> r \<and> r \<le> 122))) contraction_list"
  unfolding contraction_list_def S_def
  by (simp add: Fields_space Fields_nonspace IsSpace_def)

lemma contraction_key:
  "map_of contraction_list k = Some e \<Longrightarrow> 39 \<in> set k"
  using contraction_list_facts by (auto simp: list_all_iff dest!: map_of_SomeD)

lemma contraction_expansion:
  assumes "map_of contraction_list k = Some e"
  shows "Fields e \<noteq> []" "Join (Fields e) [32] = e" "\<forall>r\<in>set e. r = 32 \<or> (97 \<le> r \<and> r \<le> 122)"
  using contraction_list_facts map_of_SomeD[OF assms] by (auto simp: list_all_iff)


subsection \<open>Idempotence\<close>

lemma sp_simps: "S '' '' = [32]"
  by (simp add: S_def)

lemma lower_letter: "97 \<le> r \<Longrightarrow> r \<le> 122 \<Longrightarrow> unicode_ToLower U r = r"
  by (simp add: unicode_ToLower_def)

lemma normalizeText_words:
  assumes U: "unicode_contract U" and km: "contractions km = map_of contraction_list"
  shows "\<exists>vs. normalizeText U km x = Join vs [32] \<and>
     (\<forall>v\<in>set vs. v \<noteq> [] \<and> (\<forall>r\<in>set v. \<not> IsSpace r) \<and> NFKD_String U v = v \<and>
        (\<forall>r\<in>set v. unicode_ToLower U r = r) \<and> contractions km v = None)"
proof -
  let ?M = "map (\<lambda>r. if IsSpace r then 32 else r)"
  define p where "p = ToLower U (TrimSpace (?M (NFKD_String U x)))"
  define E where "E = (\<lambda>word. case contractions km word of Some expansion \<Rightarrow> expansion | None \<Rightarrow> word)"
  define ws where "ws = Fields p"
  define vs where "vs = concat (map Fields (map E ws))"
  have out: "normalizeText U km x = ReplaceAllString_spaces (Join (map E ws) [32]) [32]"
    by (simp add: normalizeText_def Let_def p_def E_def ws_def sp_simps)
  \<comment> \<open>the text before it is split is in normal form\<close>
  have "NFKD_String U ([] @ NFKD_String U x) = [] @ NFKD_String U x"
    using nf_idem[OF U] by simp
  from nf_map_space[OF U this] have "NFKD_String U (?M (NFKD_String U x)) = ?M (NFKD_String U x)"
    by simp
  moreover obtain a b where "?M (NFKD_String U x) = a @ TrimSpace (?M (NFKD_String U x)) @ b"
    using TrimSpace_sublist by blast
  ultimately have "NFKD_String U (TrimSpace (?M (NFKD_String U x))) =
      TrimSpace (?M (NFKD_String U x))"
    using nf_sublist[OF U, of a "TrimSpace (?M (NFKD_String U x))" b] by simp
  then have np: "NFKD_String U p = p" unfolding p_def by (rule nf_lower[OF U])
  have lp: "\<forall>r\<in>set p. unicode_ToLower U r = r"
    unfolding p_def ToLower_def using lower_idem[OF U] by auto
  \<comment> \<open>the words\<close>
  have w: "w \<noteq> [] \<and> (\<forall>r\<in>set w. \<not> IsSpace r) \<and> NFKD_String U w = w \<and>
      (\<forall>r\<in>set w. unicode_ToLower U r = r)" if "w \<in> set ws" for w
  proof -
    from that obtain a b where ab: "p = a @ w @ b" unfolding ws_def using Fields_sublist by blast
    with np have "NFKD_String U w = w" using nf_sublist[OF U, of a w b] by simp
    moreover from ab lp have "\<forall>r\<in>set w. unicode_ToLower U r = r" by simp
    ultimately show ?thesis using Fields_words[of w p] that unfolding ws_def by simp
  qed
  \<comment> \<open>the words after the contractions are expanded\<close>
  have e: "Fields (E w) \<noteq> [] \<and> Join (Fields (E w)) [32] = E w \<and>
      (\<forall>v\<in>set (Fields (E w)). NFKD_String U v = v \<and> (\<forall>r\<in>set v. unicode_ToLower U r = r) \<and>
         contractions km v = None)" if "w \<in> set ws" for w
  proof (cases "contractions km w")
    case None
    then have "E w = w" by (simp add: E_def)
    moreover from w[OF that] have "Fields w = [w]" by (simp add: Fields_word)
    ultimately show ?thesis using w[OF that] None by simp
  next
    case (Some ex)
    then have Ew: "E w = ex" by (simp add: E_def)
    from Some km have m: "map_of contraction_list w = Some ex" by simp
    note x = contraction_expansion[OF m]
    have "NFKD_String U v = v \<and> (\<forall>r\<in>set v. unicode_ToLower U r = r) \<and> contractions km v = None"
      if v: "v \<in> set (Fields ex)" for v
    proof -
      from v obtain a b where "ex = a @ v @ b" using Fields_sublist by blast
      with x(3) have r: "\<forall>r\<in>set v. r = 32 \<or> (97 \<le> r \<and> r \<le> 122)" by simp
      have letters: "\<forall>r\<in>set v. 97 \<le> r \<and> r \<le> 122"
      proof
        fix r assume "r \<in> set v"
        with Fields_words[OF v] have "\<not> IsSpace r" by simp
        then have "r \<noteq> 32" by (auto simp: IsSpace_def)
        with r \<open>r \<in> set v\<close> show "97 \<le> r \<and> r \<le> 122" by blast
      qed
      then have "\<forall>r\<in>set v. r < 0x80" by auto
      then have "NFKD_String U v = v" by (rule nf_ascii[OF U])
      moreover have "\<forall>r\<in>set v. unicode_ToLower U r = r"
        using letters by (simp add: lower_letter)
      moreover have "contractions km v = None"
      proof (cases "contractions km v")
        case None
        then show ?thesis .
      next
        case (Some y)
        with km have "39 \<in> set v" using contraction_key[of v y] by simp
        with letters show ?thesis by auto
      qed
      ultimately show ?thesis by simp
    qed
    with x(1,2) Ew show ?thesis by simp
  qed
  have vs: "v \<noteq> [] \<and> (\<forall>r\<in>set v. \<not> IsSpace r) \<and> NFKD_String U v = v \<and>
        (\<forall>r\<in>set v. unicode_ToLower U r = r) \<and> contractions km v = None" if "v \<in> set vs" for v
  proof -
    from that obtain w where "w \<in> set ws" "v \<in> set (Fields (E w))" unfolding vs_def by auto
    with e[of w] Fields_words[of v "E w"] show ?thesis by simp
  qed
  have "Join vs [32] = Join (map E ws) [32]"
    unfolding vs_def using e by (intro Join_concat_Fields) simp
  then have "normalizeText U km x = ReplaceAllString_spaces (Join vs [32]) [32]"
    using out by simp
  also have "\<dots> = Join vs [32]" using vs by (intro Replace_Join_words) simp
  finally show ?thesis using vs by blast
qed

lemma normalizeText_idem:
  assumes U: "unicode_contract U" and km: "contractions km = map_of contraction_list"
  shows "normalizeText U km (normalizeText U km x) = normalizeText U km x"
proof -
  from normalizeText_words[OF assms, of x] obtain vs where y: "normalizeText U km x = Join vs [32]"
    and vs: "\<forall>v\<in>set vs. v \<noteq> [] \<and> (\<forall>r\<in>set v. \<not> IsSpace r) \<and> NFKD_String U v = v \<and>
        (\<forall>r\<in>set v. unicode_ToLower U r = r) \<and> contractions km v = None"
    by blast
  let ?Y = "Join vs [32]"
  have 1: "NFKD_String U ?Y = ?Y" using vs by (intro nf_Join[OF U]) simp
  have 2: "map (\<lambda>r. if IsSpace r then 32 else r) ?Y = ?Y"
    using vs by (intro map_space_Join_words) simp
  have 3: "TrimSpace ?Y = ?Y" using vs by (intro TrimSpace_Join_words) simp
  have 4: "ToLower U ?Y = ?Y"
  proof -
    have "unicode_ToLower U r = r" if "r \<in> set ?Y" for r
    proof -
      from set_Join_words[OF that] consider "r = 32" | v where "v \<in> set vs" "r \<in> set v"
        by blast
      then show ?thesis
      proof cases
        case 1
        then show ?thesis by (simp add: unicode_ToLower_def)
      next
        case 2
        with vs show ?thesis by blast
      qed
    qed
    then show ?thesis by (simp add: ToLower_def map_idI)
  qed
  have 5: "Fields ?Y = vs" using vs by (intro Fields_Join_words) simp
  have 6: "map (\<lambda>word. case contractions km word of Some expansion \<Rightarrow> expansion | None \<Rightarrow> word) vs = vs"
    using vs by (intro map_idI) simp
  have 7: "ReplaceAllString_spaces ?Y [32] = ?Y" using vs by (intro Replace_Join_words) simp
  show ?thesis
    unfolding y by (simp add: normalizeText_def Let_def sp_simps 1 2 3 4 5 6 7)
qed

lemma ascii_lib_contract: "unicode_contract ascii_lib"
  by (simp add: unicode_contract_def ascii_lib_def ToLower_def unicode_ToLower_def)

lemma latin_decomp_stable: "c \<in> set (latin_decomp r) \<Longrightarrow> latin_decomp c = [c]"
  by (auto simp: latin_decomp_def split: if_splits)

lemma latin_stable_iff:
  "concat (map latin_decomp s) = s \<longleftrightarrow> (\<forall>c\<in>set s. latin_decomp c = [c])"
proof
  assume e: "concat (map latin_decomp s) = s"
  have "\<forall>c\<in>set (concat (map latin_decomp s)). latin_decomp c = [c]"
    using latin_decomp_stable by auto
  then show "\<forall>c\<in>set s. latin_decomp c = [c]" unfolding e .
next
  assume "\<forall>c\<in>set s. latin_decomp c = [c]"
  then show "concat (map latin_decomp s) = s" by (induction s) auto
qed

lemma latin_lower_stable:
  "latin_decomp c = [c] \<Longrightarrow>
   latin_decomp (unicode_ToLower latin_lib c) = [unicode_ToLower latin_lib c]"
  by (auto simp: latin_decomp_def unicode_ToLower_def latin_lib_def split: if_splits)

lemma latin_lib_contract: "unicode_contract latin_lib"
proof -
  let ?N = "\<lambda>s. concat (map latin_decomp s)"
  have N: "NFKD_String latin_lib = ?N" by (simp add: latin_lib_def)
  have p1: "?N (?N s) = ?N s" for s
    unfolding latin_stable_iff using latin_decomp_stable by auto
  have p3: "?N (s @ c # t) = s @ c # t" if "c < 0x80" "?N s = s" "?N t = t" for s t c
    using that by (simp add: latin_decomp_def)
  have p4: "?N s = s \<and> ?N t = t" if "?N (s @ t) = s @ t" for s t
    using that unfolding latin_stable_iff by simp
  have p5: "?N (ToLower latin_lib s) = ToLower latin_lib s" if "?N s = s" for s
    using that unfolding latin_stable_iff ToLower_def by (simp add: latin_lower_stable)
  have p6: "unicode_ToLower latin_lib (unicode_ToLower latin_lib r) = unicode_ToLower latin_lib r"
    for r by (simp add: unicode_ToLower_def latin_lib_def)
  show ?thesis unfolding unicode_contract_def N
  proof (intro conjI allI impI, goal_cases)
    case (1 s)
    show ?case by (rule p1)
  next
    case 2
    show ?case by simp
  next
    case (3 s t c)
    then show ?case by (rule p3)
  next
    case (4 s t)
    then show ?case by (rule p4[THEN conjunct1])
  next
    case (5 s t)
    then show ?case by (rule p4[THEN conjunct2])
  next
    case (6 s)
    then show ?case by (rule p5)
  next
    case (7 r)
    show ?case by (rule p6)
  qed
qed

lemma normalize_cafe:
  "normalizeText latin_lib empty_matcher [0xA0, 0x43, 0x41, 0x46, 0xC9, 0x85, 0x49, 0x27, 0x4D, 0x20] =
     [0x63, 0x61, 0x66, 0x65, 0x301, 0x20, 0x69, 0x20, 0x61, 0x6D]"
  by (simp add: normalizeText_def empty_matcher_def latin_lib_def latin_decomp_def string_eval)

text \<open>
  Claim C4: normalisation is total and idempotent. \<open>normalizeText\<close> is a total
  function of the text (a sequence of code points), and normalising a normalised text
  changes nothing: \<open>normalizeText (normalizeText x) = normalizeText x\<close> for every \<open>x\<close>,
  whatever code points, runs of white space and contractions it holds. The two
  library functions \<open>norm.NFKD.String\<close> and \<open>unicode.ToLower\<close> enter through their
  contract; the contraction table is the one \<open>NewKeywordMatcher\<close> installs, so the
  equation holds for every matcher it returns.
\<close>

theorem normalizeText_idempotent:
  assumes "unicode_contract U"
  shows "(contractions km = map_of contraction_list \<longrightarrow>
           normalizeText U km (normalizeText U km x) = normalizeText U km x)
       \<and> (NewKeywordMatcher U sort_Slice now cfg path = Some km' \<longrightarrow>
           normalizeText U km' (normalizeText U km' x) = normalizeText U km' x)"
proof (intro conjI impI)
  assume "contractions km = map_of contraction_list"
  with assms show "normalizeText U km (normalizeText U km x) = normalizeText U km x"
    by (rule normalizeText_idem)
next
  assume "NewKeywordMatcher U sort_Slice now cfg path = Some km'"
  with NewKeywordMatcher_eq[of U sort_Slice now cfg path]
  have "contractions km' = map_of contraction_list" by auto
  with assms show "normalizeText U km' (normalizeText U km' x) = normalizeText U km' x"
    by (rule normalizeText_idem)
qed

lemma normalize_dont:
  "normalizeText ascii_lib empty_matcher (S ''  Please DON'T   call me '') =
     S ''please do not call me''"
  by (simp add: normalizeText_def empty_matcher_def ascii_lib_def string_eval)

theorem normalizeText_idempotent_witness:
  "unicode_contract ascii_lib
   \<and> contractions empty_matcher = map_of contraction_list
   \<and> normalizeText ascii_lib empty_matcher (S ''  Please DON'T   call me '') =
       S ''please do not call me''
   \<and> normalizeText ascii_lib empty_matcher (S ''please do not call me'') =
       S ''please do not call me''
   \<and> scenario_C \<noteq> None
   \<and> normalizeText ascii_lib (the scenario_C) (S ''please do not call me'') =
       S ''please do not call me''
   \<and> unicode_contract latin_lib
   \<and> normalizeText latin_lib empty_matcher
         [0xA0, 0x43, 0x41, 0x46, 0xC9, 0x85, 0x49, 0x27, 0x4D, 0x20] =
       [0x63, 0x61, 0x66, 0x65, 0x301, 0x20, 0x69, 0x20, 0x61, 0x6D]
   \<and> normalizeText latin_lib empty_matcher
         [0x63, 0x61, 0x66, 0x65, 0x301, 0x20, 0x69, 0x20, 0x61, 0x6D] =
       [0x63, 0x61, 0x66, 0x65, 0x301, 0x20, 0x69, 0x20, 0x61, 0x6D]"
proof -
  have c: "contractions empty_matcher = map_of contraction_list"
    by (simp add: empty_matcher_def)
  note T = normalizeText_idempotent[OF ascii_lib_contract,
      of empty_matcher "S ''  Please DON'T   call me ''" insertionSort 0
         "[(S ''dnq_p5_s3'', Slice [Str (S ''not qualified'')])]" "[]" "the scenario_C"]
  from T[THEN conjunct1, rule_format, OF c]
  have 1: "normalizeText ascii_lib empty_matcher (S ''please do not call me'') =
       S ''please do not call me''"
    unfolding normalize_dont .
  from scenario_C_km obtain km :: KeywordMatcher where km: "scenario_C = Some km" by auto
  then have s: "NewKeywordMatcher ascii_lib insertionSort 0
         [(S ''dnq_p5_s3'', Slice [Str (S ''not qualified'')])] [] = Some (the scenario_C)"
    by (simp add: scenario_C_def)
  from T[THEN conjunct2, rule_format, OF s]
  have 2: "normalizeText ascii_lib (the scenario_C) (S ''please do not call me'') =
       S ''please do not call me''"
    using scenario_C_km normalizeText_contractions[of "the scenario_C" empty_matcher ascii_lib]
    unfolding km by (auto simp: normalize_dont)
  have 3: "scenario_C \<noteq> None" unfolding km by simp
  from normalizeText_idempotent[OF latin_lib_contract,
      of empty_matcher "[0xA0, 0x43, 0x41, 0x46, 0xC9, 0x85, 0x49, 0x27, 0x4D, 0x20]",
      THEN conjunct1, rule_format, OF c]
  have 4: "normalizeText latin_lib empty_matcher
         [0x63, 0x61, 0x66, 0x65, 0x301, 0x20, 0x69, 0x20, 0x61, 0x6D] =
       [0x63, 0x61, 0x66, 0x65, 0x301, 0x20, 0x69, 0x20, 0x61, 0x6D]"
    unfolding normalize_cafe .
  from ascii_lib_contract c normalize_dont 1 3 2 latin_lib_contract normalize_cafe 4
  show ?thesis by (intro conjI)
qed


section \<open>Stored keywords\<close>

lemma match_here_literal:
  "i \<le> length s \<Longrightarrow>
   match_here (map Lit kw @ re) s i \<longleftrightarrow>
     i + length kw \<le> length s \<and> take (length kw) (drop i s) = kw \<and>
     match_here re s (i + length kw)"
proof (induction kw arbitrary: i)
  case Nil
  then show ?case by simp
next
  case (Cons c kw)
  show ?case
  proof (cases "i < length s")
    case True
    then have "drop i s = s ! i # drop (Suc i) s" by (simp add: Cons_nth_drop_Suc)
    then show ?thesis using Cons.IH[of "Suc i"] True by auto
  next
    case False
    then show ?thesis by simp
  qed
qed

lemma MatchString_literal:
  "MatchString (WordBoundary # map Lit kw @ [WordBoundary]) s \<longleftrightarrow>
     (\<exists>i. i + length kw \<le> length s \<and> take (length kw) (drop i s) = kw \<and>
          word_boundary s i \<and> word_boundary s (i + length kw))"
proof -
  have m: "match_here (WordBoundary # map Lit kw @ [WordBoundary]) s i \<longleftrightarrow>
      i + length kw \<le> length s \<and> take (length kw) (drop i s) = kw \<and>
      word_boundary s i \<and> word_boundary s (i + length kw)" if "i \<le> length s" for i
    using match_here_literal[OF that, of kw "[WordBoundary]"] by auto
  show ?thesis
  proof
    assume "MatchString (WordBoundary # map Lit kw @ [WordBoundary]) s"
    then obtain i where "i \<le> length s"
      "match_here (WordBoundary # map Lit kw @ [WordBoundary]) s i"
      unfolding MatchString_def list_ex_iff
      by (auto simp del: upt_Suc match_here.simps simp add: less_Suc_eq_le)
    with m[of i] show "\<exists>i. i + length kw \<le> length s \<and> take (length kw) (drop i s) = kw \<and>
          word_boundary s i \<and> word_boundary s (i + length kw)" by blast
  next
    assume "\<exists>i. i + length kw \<le> length s \<and> take (length kw) (drop i s) = kw \<and>
          word_boundary s i \<and> word_boundary s (i + length kw)"
    then obtain i where i: "i + length kw \<le> length s" "take (length kw) (drop i s) = kw"
          "word_boundary s i" "word_boundary s (i + length kw)" by blast
    then have le: "i \<le> length s" by simp
    with m[OF le] i have "match_here (WordBoundary # map Lit kw @ [WordBoundary]) s i" by blast
    with le show "MatchString (WordBoundary # map Lit kw @ [WordBoundary]) s"
      unfolding MatchString_def list_ex_iff by (auto simp del: upt_Suc match_here.simps)
  qed
qed

lemma loaded_entry:
  assumes "c \<in> set (loaded_categories U cfg)" "e \<in> set (Keywords c)"
  shows "raw e \<noteq> [] \<and> (\<exists>kw. raw e = normalizeText U empty_matcher kw) \<and>
     regex e = WordBoundary # map Lit (raw e) @ [WordBoundary]"
proof -
  from assms(1) obtain kws where "Keywords c = keyword_entries U kws"
    by (auto simp: loaded_categories_def split: option.splits if_splits)
  with assms(2) show ?thesis by (auto simp: keyword_entries_def)
qed

text \<open>
  Claim C10: \<open>NewKeywordMatcher\<close> always returns a matcher, and every keyword entry
  stored in any of its buckets, hardcoded or prioritized, of any stage, has a raw text
  that is not empty and is a fixed point of \<open>normalizeText\<close>; its regular expression
  is the one compiled from the escaped raw text between two word-boundary assertions,
  which matches exactly the occurrences of the raw text between two word boundaries. Since the
  normalised input is a fixed point as well, the exact tier compares two texts in
  normal form.
\<close>

theorem stored_keywords_normalized:
  assumes "unicode_contract U" "sort_contract sort_Slice"
  shows "\<exists>km. NewKeywordMatcher U sort_Slice now cfg path = Some km \<and>
     (\<forall>stage stageData catEntry entry.
        stageMap km stage = Some stageData \<longrightarrow>
        catEntry \<in> set (Hardcoded stageData) \<union> set (Prioritized stageData) \<longrightarrow>
        entry \<in> set (Keywords catEntry) \<longrightarrow>
          raw entry \<noteq> [] \<and> normalizeText U km (raw entry) = raw entry \<and>
          Compile ([92, 98] @ QuoteMeta (raw entry) @ [92, 98]) = Some (regex entry) \<and>
          regex entry = WordBoundary # map Lit (raw entry) @ [WordBoundary] \<and>
          (\<forall>s. MatchString (regex entry) s \<longleftrightarrow>
             (\<exists>i. i + length (raw entry) \<le> length s \<and>
                  take (length (raw entry)) (drop i s) = raw entry \<and>
                  word_boundary s i \<and> word_boundary s (i + length (raw entry))))) \<and>
     (\<forall>tx. normalizeText U km (normalizeText U km tx) = normalizeText U km tx)"
proof -
  from NewKeywordMatcher_eq[of U sort_Slice now cfg path] obtain km where
    km: "NewKeywordMatcher U sort_Slice now cfg path = Some km"
    and con: "contractions km = map_of contraction_list"
    and sm: "\<forall>stage. stageMap km stage =
        (if filter (\<lambda>c. Stage (Info c) = stage) (loaded_categories U cfg) = [] then None
         else Some \<lparr>Hardcoded = filter (\<lambda>c. IsHardcoded (Info c))
                        (filter (\<lambda>c. Stage (Info c) = stage) (loaded_categories U cfg)),
                    Prioritized = sort_Slice (\<lambda>a b. Priority (Info a) < Priority (Info b))
                      (filter (\<lambda>c. \<not> IsHardcoded (Info c))
                        (filter (\<lambda>c. Stage (Info c) = stage) (loaded_categories U cfg)))\<rparr>)"
    by blast
  have idem: "normalizeText U km (normalizeText U km tx) = normalizeText U km tx" for tx
    using assms(1) con by (rule normalizeText_idem)
  from assms(2) have "mset (sort_Slice (\<lambda>a b. Priority (Info a) < Priority (Info b)) xs) = mset xs"
    for xs by (simp add: sort_contract_def)
  then have set_sort: "set (sort_Slice (\<lambda>a b. Priority (Info a) < Priority (Info b)) xs) = set xs"
    for xs by (rule mset_eq_setD)
  have "raw entry \<noteq> [] \<and> normalizeText U km (raw entry) = raw entry \<and>
          Compile ([92, 98] @ QuoteMeta (raw entry) @ [92, 98]) = Some (regex entry) \<and>
          regex entry = WordBoundary # map Lit (raw entry) @ [WordBoundary] \<and>
          (\<forall>s. MatchString (regex entry) s \<longleftrightarrow>
             (\<exists>i. i + length (raw entry) \<le> length s \<and>
                  take (length (raw entry)) (drop i s) = raw entry \<and>
                  word_boundary s i \<and> word_boundary s (i + length (raw entry))))"
    if sd: "stageMap km stage = Some stageData"
      and c: "catEntry \<in> set (Hardcoded stageData) \<union> set (Prioritized stageData)"
      and e: "entry \<in> set (Keywords catEntry)"
    for stage stageData catEntry entry
  proof -
    from sd c sm[rule_format, of stage] have "catEntry \<in> set (loaded_categories U cfg)"
      by (auto simp: set_sort split: if_splits)
    from loaded_entry[OF this e] obtain kw where
      r: "raw entry \<noteq> []" "raw entry = normalizeText U empty_matcher kw"
        "regex entry = WordBoundary # map Lit (raw entry) @ [WordBoundary]"
      by blast
    have "normalizeText U km kw = normalizeText U empty_matcher kw"
      by (rule normalizeText_contractions) (simp add: con empty_matcher_def)
    with r(2) idem[of kw] have "normalizeText U km (raw entry) = raw entry" by simp
    with r Compile_pattern[of "raw entry"] MatchString_literal[of "raw entry"]
    show ?thesis by simp
  qed
  with km idem show ?thesis by blast
qed

lemma match_not_qualified:
  "MatchString (WordBoundary # map Lit (S ''not qualified'') @ [WordBoundary])
     (S ''i am not qualified'')"
  "\<not> MatchString (WordBoundary # map Lit (S ''not qualified'') @ [WordBoundary])
     (S ''not qualifiedx'')"
  by (simp_all add: MatchString_def S_def upt_rec word_boundary_def isWordChar_def)

theorem stored_keywords_normalized_witness:
  "unicode_contract ascii_lib \<and> sort_contract insertionSort \<and>
   (\<exists>km. scenario_C = Some km \<and>
      stageMap km (S ''s3'') = Some \<lparr>Hardcoded = [], Prioritized = [dnq_bucket]\<rparr> \<and>
      map raw (Keywords dnq_bucket) = [S ''not qualified''] \<and>
      normalizeText ascii_lib km (S ''not qualified'') = S ''not qualified'' \<and>
      Compile ([92, 98] @ QuoteMeta (S ''not qualified'') @ [92, 98]) =
        Some (WordBoundary # map Lit (S ''not qualified'') @ [WordBoundary]) \<and>
      map regex (Keywords dnq_bucket) =
        [WordBoundary # map Lit (S ''not qualified'') @ [WordBoundary]] \<and>
      MatchString (WordBoundary # map Lit (S ''not qualified'') @ [WordBoundary])
        (S ''i am not qualified'') \<and>
      \<not> MatchString (WordBoundary # map Lit (S ''not qualified'') @ [WordBoundary])
        (S ''not qualifiedx''))"
proof -
  let ?e = "\<lparr>raw = S ''not qualified'',
             regex = WordBoundary # map Lit (S ''not qualified'') @ [WordBoundary]\<rparr>"
  from stored_keywords_normalized[OF ascii_lib_contract insertionSort_contract,
      of 0 "[(S ''dnq_p5_s3'', Slice [Str (S ''not qualified'')])]" "[]"]
  obtain km :: KeywordMatcher where
    km: "NewKeywordMatcher ascii_lib insertionSort 0
           [(S ''dnq_p5_s3'', Slice [Str (S ''not qualified'')])] [] = Some km"
    and A: "\<And>stage stageData catEntry entry.
        stageMap km stage = Some stageData \<Longrightarrow>
        catEntry \<in> set (Hardcoded stageData) \<union> set (Prioritized stageData) \<Longrightarrow>
        entry \<in> set (Keywords catEntry) \<Longrightarrow>
          raw entry \<noteq> [] \<and> normalizeText ascii_lib km (raw entry) = raw entry \<and>
          Compile ([92, 98] @ QuoteMeta (raw entry) @ [92, 98]) = Some (regex entry)"
    by blast
  from km have sc: "scenario_C = Some km" by (simp add: scenario_C_def)
  note sm = scenario_C_facts(1)[OF sc]
  have "?e \<in> set (Keywords dnq_bucket)" by (simp add: dnq_bucket_def)
  from A[OF sm _ this]
  have B: "normalizeText ascii_lib km (S ''not qualified'') = S ''not qualified''"
    "Compile ([92, 98] @ QuoteMeta (S ''not qualified'') @ [92, 98]) =
        Some (WordBoundary # map Lit (S ''not qualified'') @ [WordBoundary])"
    by simp_all
  have K: "map raw (Keywords dnq_bucket) = [S ''not qualified'']"
    "map regex (Keywords dnq_bucket) =
        [WordBoundary # map Lit (S ''not qualified'') @ [WordBoundary]]"
    by (simp_all add: dnq_bucket_def)
  from sc sm B K match_not_qualified ascii_lib_contract insertionSort_contract
  show ?thesis by (intro conjI exI[of _ km])
qed


end
